theory Spec2Isabelle
  imports Complex_Main "HOL-Library.Char_ord" "HOL-Library.List_Lexorder" "HOL-Library.Multiset"
    "HOL-Library.Log_Nat"
begin

section \<open>Double-precision arithmetic\<close>

text \<open>
  Amounts, limits and totals are C++ \<^verbatim>\<open>double\<close>s in the source. A finite
  \<^verbatim>\<open>double\<close> is carried as the real number it denotes. Comparisons are exact, and an
  arithmetic operation is the exact operation followed by rounding to the nearest
  \<^verbatim>\<open>double\<close>, ties going to the even significand (IEEE 754 binary64 in its default
  rounding mode, every operation evaluated in \<^verbatim>\<open>double\<close> precision): 53 significant
  bits, and a unit in the last place that is never below \<open>2 ^ - 1074\<close> (gradual
  underflow).

  Infinities and NaN have no representation here. A result beyond \<open>DBL_MAX\<close>, which the
  machine turns into an infinity, is carried as the rounded real number: it compares with
  every finite \<^verbatim>\<open>double\<close> as the infinity does, but statements about the value of an
  arithmetic result are made for results within \<open>DBL_MAX\<close> only.
\<close>

text \<open>\<open>ilog2 x\<close> is \<open>\<lfloor>log\<^sub>2 x\<rfloor>\<close> for \<open>x > 0\<close>, computed from the binary length of integers.\<close>

definition ilog2 :: "real \<Rightarrow> int" where
  "ilog2 x = (if 1 \<le> x then bitlen \<lfloor>x\<rfloor> - 1 else - bitlen (\<lceil>1 / x\<rceil> - 1))"

text \<open>Rounding to the nearest integer, a tie to the even one.\<close>

definition round_even :: "real \<Rightarrow> int" where
  "round_even y =
     (let f = \<lfloor>y\<rfloor>; d = y - of_int f
      in if d < 1 / 2 then f else if 1 / 2 < d then f + 1 else if even f then f else f + 1)"

text \<open>
  Rounding of a magnitude \<open>a \<ge> 0\<close>: with \<open>e\<close> the exponent of the unit in the last
  place of the binade of \<open>a\<close>, the nearest multiple of \<open>2 ^ e\<close>. \<open>rnd\<close> rounds a
  signed number through its magnitude.
\<close>

definition rnd_mag :: "real \<Rightarrow> real" where
  "rnd_mag a =
     (let e = max (ilog2 a - 52) (- 1074)
      in of_int (round_even (a / 2 powi e)) * 2 powi e)"

definition rnd :: "real \<Rightarrow> real" where
  "rnd x = (if x < 0 then - rnd_mag (- x) else rnd_mag x)"

text \<open>The operators \<^verbatim>\<open>+\<close>, \<^verbatim>\<open>-\<close>, \<^verbatim>\<open>*\<close> and \<^verbatim>\<open>/\<close> on \<^verbatim>\<open>double\<close>.\<close>

definition fadd :: "real \<Rightarrow> real \<Rightarrow> real" where
  "fadd x y = rnd (x + y)"

definition fsub :: "real \<Rightarrow> real \<Rightarrow> real" where
  "fsub x y = rnd (x - y)"

definition fmul :: "real \<Rightarrow> real \<Rightarrow> real" where
  "fmul x y = rnd (x * y)"

definition fdiv :: "real \<Rightarrow> real \<Rightarrow> real" where
  "fdiv x y = rnd (x / y)"

text \<open>The largest finite \<^verbatim>\<open>double\<close>, and the reals that are finite \<^verbatim>\<open>double\<close>s.\<close>

definition DBL_MAX :: real where
  "DBL_MAX = (2 ^ 53 - 1) * 2 ^ 971"

definition is_double :: "real \<Rightarrow> bool" where
  "is_double x \<longleftrightarrow> rnd x = x \<and> \<bar>x\<bar> \<le> DBL_MAX"

section \<open>Data model\<close>

text \<open>
  Strings are \<^typ>\<open>string\<close> with the lexicographic order on unsigned character codes,
  which is the order \<^verbatim>\<open>std::string::operator<\<close> computes.
\<close>

text \<open>\<^verbatim>\<open>struct Transaction\<close> (linkedlist.h).\<close>

record Transaction =
  txn_id :: string
  txn_type :: string
  amount :: real
  category :: string
  description :: string
  date :: string

text \<open>\<^verbatim>\<open>struct Budget\<close> (finance_engine.h).\<close>

record Budget =
  budget_category :: string
  limit :: real
  spent :: real

definition getPercentUsed :: "Budget \<Rightarrow> real" where
  "getPercentUsed b = (if limit b = 0 then 0 else fmul (fdiv (spent b) (limit b)) 100)"

definition getAlertLevel :: "Budget \<Rightarrow> string" where
  "getAlertLevel b =
     (let percent = getPercentUsed b in
      if percent \<ge> 100 then ''exceeded''
      else if percent \<ge> 80 then ''warning''
      else if percent \<ge> 50 then ''caution''
      else ''normal'')"

text \<open>\<^verbatim>\<open>struct Bill\<close> (queue.h).\<close>

record Bill =
  bill_id :: string
  bill_name :: string
  bill_amount :: real
  dueDate :: string
  bill_category :: string
  isPaid :: bool

text \<open>\<^verbatim>\<open>enum ActionType\<close> and \<^verbatim>\<open>struct Action\<close> (stack.h).\<close>

datatype ActionType =
  ADD_TRANSACTION | DELETE_TRANSACTION | ADD_BUDGET | UPDATE_BUDGET
  | ADD_BILL | DELETE_BILL | PAY_BILL

record Action =
  atype :: ActionType
  adata :: string

text \<open>\<^verbatim>\<open>struct CategoryAmount\<close> (heap.h).\<close>

record CategoryAmount =
  ca_category :: string
  totalAmount :: real

section \<open>DoublyLinkedList (linkedlist.h)\<close>

text \<open>
  The node chain from \<^verbatim>\<open>head\<close> to \<^verbatim>\<open>tail\<close> is a list, head first. The
  \<^verbatim>\<open>count\<close> fields of the list, the tree and the queue are read by \<^verbatim>\<open>size()\<close> and
  \<^verbatim>\<open>isEmpty()\<close> only, which no operation modelled here calls; they are left out.
\<close>

type_synonym DoublyLinkedList = "Transaction list"

definition DLL_addFront :: "Transaction \<Rightarrow> DoublyLinkedList \<Rightarrow> DoublyLinkedList" where
  "DLL_addFront t l = t # l"

definition DLL_addBack :: "Transaction \<Rightarrow> DoublyLinkedList \<Rightarrow> DoublyLinkedList" where
  "DLL_addBack t l = l @ [t]"

text \<open>\<^verbatim>\<open>deleteById\<close> unlinks the first node with the id; the flag is its return value.\<close>

fun DLL_deleteById :: "string \<Rightarrow> DoublyLinkedList \<Rightarrow> bool \<times> DoublyLinkedList" where
  "DLL_deleteById i [] = (False, [])"
| "DLL_deleteById i (t # l) =
     (if txn_id t = i then (True, l)
      else (let (found, l') = DLL_deleteById i l in (found, t # l')))"

fun DLL_traverseForward :: "DoublyLinkedList \<Rightarrow> Transaction list" where
  "DLL_traverseForward [] = []"
| "DLL_traverseForward (t # l) = t # DLL_traverseForward l"

fun DLL_filterByCategory :: "string \<Rightarrow> DoublyLinkedList \<Rightarrow> Transaction list" where
  "DLL_filterByCategory c [] = []"
| "DLL_filterByCategory c (t # l) =
     (if category t = c then t # DLL_filterByCategory c l else DLL_filterByCategory c l)"

fun DLL_filterByType :: "string \<Rightarrow> DoublyLinkedList \<Rightarrow> Transaction list" where
  "DLL_filterByType ty [] = []"
| "DLL_filterByType ty (t # l) =
     (if txn_type t = ty then t # DLL_filterByType ty l else DLL_filterByType ty l)"

definition DLL_clear :: "DoublyLinkedList \<Rightarrow> DoublyLinkedList" where
  "DLL_clear l = []"

section \<open>BillQueue (queue.h)\<close>

text \<open>The chain from \<^verbatim>\<open>front\<close> to \<^verbatim>\<open>rear\<close>, front first.\<close>

type_synonym BillQueue = "Bill list"

definition BillQueue_enqueue :: "Bill \<Rightarrow> BillQueue \<Rightarrow> BillQueue" where
  "BillQueue_enqueue b q = q @ [b]"

text \<open>\<^verbatim>\<open>dequeue\<close> and \<^verbatim>\<open>peek\<close>: \<open>None\<close> is the return value \<^verbatim>\<open>false\<close>.\<close>

definition BillQueue_dequeue :: "BillQueue \<Rightarrow> (Bill \<times> BillQueue) option" where
  "BillQueue_dequeue q = (case q of [] \<Rightarrow> None | b # r \<Rightarrow> Some (b, r))"

definition BillQueue_peek :: "BillQueue \<Rightarrow> Bill option" where
  "BillQueue_peek q = (case q of [] \<Rightarrow> None | b # r \<Rightarrow> Some b)"

fun BillQueue_getAllBills :: "BillQueue \<Rightarrow> Bill list" where
  "BillQueue_getAllBills [] = []"
| "BillQueue_getAllBills (b # q) = b # BillQueue_getAllBills q"

fun BillQueue_findById :: "string \<Rightarrow> BillQueue \<Rightarrow> Bill option" where
  "BillQueue_findById i [] = None"
| "BillQueue_findById i (b # q) = (if bill_id b = i then Some b else BillQueue_findById i q)"

text \<open>The walk of \<^verbatim>\<open>removeById\<close> behind the front node.\<close>

fun removeAfterFront :: "string \<Rightarrow> Bill list \<Rightarrow> bool \<times> Bill list" where
  "removeAfterFront i [] = (False, [])"
| "removeAfterFront i (b # q) =
     (if bill_id b = i then (True, q)
      else (let (found, q') = removeAfterFront i q in (found, b # q')))"

definition BillQueue_removeById :: "string \<Rightarrow> BillQueue \<Rightarrow> bool \<times> BillQueue" where
  "BillQueue_removeById i q =
     (case q of
        [] \<Rightarrow> (False, [])
      | b # r \<Rightarrow>
          if bill_id b = i then
            (case BillQueue_dequeue q of None \<Rightarrow> (False, q) | Some (_, q') \<Rightarrow> (True, q'))
          else (let (found, r') = removeAfterFront i r in (found, b # r')))"

fun BillQueue_markAsPaid :: "string \<Rightarrow> BillQueue \<Rightarrow> bool \<times> BillQueue" where
  "BillQueue_markAsPaid i [] = (False, [])"
| "BillQueue_markAsPaid i (b # q) =
     (if bill_id b = i then (True, b\<lparr>isPaid := True\<rparr> # q)
      else (let (found, q') = BillQueue_markAsPaid i q in (found, b # q')))"

fun BillQueue_getUnpaidBills :: "BillQueue \<Rightarrow> Bill list" where
  "BillQueue_getUnpaidBills [] = []"
| "BillQueue_getUnpaidBills (b # q) =
     (if \<not> isPaid b then b # BillQueue_getUnpaidBills q else BillQueue_getUnpaidBills q)"

fun BillQueue_getOverdueBills :: "string \<Rightarrow> BillQueue \<Rightarrow> Bill list" where
  "BillQueue_getOverdueBills currentDate [] = []"
| "BillQueue_getOverdueBills currentDate (b # q) =
     (if \<not> isPaid b \<and> dueDate b < currentDate
      then b # BillQueue_getOverdueBills currentDate q
      else BillQueue_getOverdueBills currentDate q)"

definition BillQueue_clear :: "BillQueue \<Rightarrow> BillQueue" where
  "BillQueue_clear q = []"

section \<open>UndoStack and TransactionStack (stack.h)\<close>

text \<open>
  The chain below \<^verbatim>\<open>top\<close> is a list, top first. \<^verbatim>\<open>count\<close> and \<^verbatim>\<open>maxSize\<close> are
  kept as fields: \<^verbatim>\<open>push\<close> and \<^verbatim>\<open>isEmpty\<close> read the counter, \<^verbatim>\<open>pop\<close> reads the chain.
\<close>

record UndoStack =
  us_top :: "Action list"
  us_count :: int
  us_maxSize :: int

definition UndoStack_new :: "int \<Rightarrow> UndoStack" where
  "UndoStack_new maxSz = \<lparr>us_top = [], us_count = 0, us_maxSize = maxSz\<rparr>"

text \<open>
  The trimming walk of \<^verbatim>\<open>push\<close>, on a chain with at least one node: \<^verbatim>\<open>current\<close>
  advances while two nodes follow it, then the node after \<^verbatim>\<open>current\<close>, if there is one,
  is deleted. The flag tells whether a node was deleted (\<^verbatim>\<open>count--\<close>).
\<close>

fun dropBottom :: "'a list \<Rightarrow> bool \<times> 'a list" where
  "dropBottom (x # y # z # r) = (let (d, r') = dropBottom (y # z # r) in (d, x # r'))"
| "dropBottom [x, y] = (True, [x])"
| "dropBottom [x] = (False, [x])"
| "dropBottom [] = (False, [])"

text \<open>
  \<^verbatim>\<open>push\<close>. At capacity with an empty chain the walk dereferences the null
  \<^verbatim>\<open>top\<close>: that undefined behaviour is the result \<open>None\<close>.
\<close>

definition UndoStack_push :: "Action \<Rightarrow> UndoStack \<Rightarrow> UndoStack option" where
  "UndoStack_push a st =
     (if us_count st \<ge> us_maxSize st then
        (case us_top st of
           [] \<Rightarrow> None
         | _ # _ \<Rightarrow>
             (let (d, chain) = dropBottom (us_top st);
                  cnt = (if d then us_count st - 1 else us_count st)
              in Some (st\<lparr>us_top := a # chain, us_count := cnt + 1\<rparr>)))
      else Some (st\<lparr>us_top := a # us_top st, us_count := us_count st + 1\<rparr>))"

text \<open>\<^verbatim>\<open>pop\<close>: \<open>None\<close> is the return value \<^verbatim>\<open>false\<close> (the stack is left as it is).\<close>

definition UndoStack_pop :: "UndoStack \<Rightarrow> (Action \<times> UndoStack) option" where
  "UndoStack_pop st =
     (case us_top st of
        [] \<Rightarrow> None
      | a # r \<Rightarrow> Some (a, st\<lparr>us_top := r, us_count := us_count st - 1\<rparr>))"

definition UndoStack_size :: "UndoStack \<Rightarrow> int" where
  "UndoStack_size st = us_count st"

definition UndoStack_isEmpty :: "UndoStack \<Rightarrow> bool" where
  "UndoStack_isEmpty st = (us_count st = 0)"

definition UndoStack_clear :: "UndoStack \<Rightarrow> UndoStack" where
  "UndoStack_clear st = st\<lparr>us_top := [], us_count := 0\<rparr>"

record TransactionStack =
  ts_top :: "Transaction list"
  ts_count :: int
  ts_maxSize :: int

definition TransactionStack_new :: "int \<Rightarrow> TransactionStack" where
  "TransactionStack_new maxSz = \<lparr>ts_top = [], ts_count = 0, ts_maxSize = maxSz\<rparr>"

text \<open>
  \<^verbatim>\<open>push\<close>: the new node goes on top; over capacity, \<^verbatim>\<open>current\<close> walks
  \<^verbatim>\<open>maxSize - 1\<close> links down (stopping at the end of the chain), and everything behind
  it is deleted, each node decrementing the counter.
\<close>

definition TransactionStack_push :: "Transaction \<Rightarrow> TransactionStack \<Rightarrow> TransactionStack" where
  "TransactionStack_push t st =
     (let chain = t # ts_top st;
          cnt = ts_count st + 1
      in if cnt > ts_maxSize st then
           (let steps = nat (ts_maxSize st - 1);
                current = drop steps chain
            in if current \<noteq> [] \<and> tl current \<noteq> [] then
                 st\<lparr>ts_top := take (Suc steps) chain,
                    ts_count := cnt - int (length (tl current))\<rparr>
               else st\<lparr>ts_top := chain, ts_count := cnt\<rparr>)
         else st\<lparr>ts_top := chain, ts_count := cnt\<rparr>)"

fun takeN :: "nat \<Rightarrow> 'a list \<Rightarrow> 'a list" where
  "takeN 0 xs = []"
| "takeN (Suc n) [] = []"
| "takeN (Suc n) (x # xs) = x # takeN n xs"

definition TransactionStack_getTopN :: "int \<Rightarrow> TransactionStack \<Rightarrow> Transaction list" where
  "TransactionStack_getTopN n st = takeN (nat n) (ts_top st)"

definition TransactionStack_clear :: "TransactionStack \<Rightarrow> TransactionStack" where
  "TransactionStack_clear st = st\<lparr>ts_top := [], ts_count := 0\<rparr>"

section \<open>BST (bst.h)\<close>

text \<open>A \<^verbatim>\<open>BSTNode*\<close>: the null pointer, or a node with its date, bucket and subtrees.\<close>

datatype BST =
  Null
  | BSTNode (node_date: string) (transactions: "Transaction list") (left: BST) (right: BST)

fun BST_insertHelper :: "BST \<Rightarrow> string \<Rightarrow> Transaction \<Rightarrow> BST" where
  "BST_insertHelper Null d t = BSTNode d [t] Null Null"
| "BST_insertHelper (BSTNode nd ts l r) d t =
     (if d < nd then BSTNode nd ts (BST_insertHelper l d t) r
      else if d > nd then BSTNode nd ts l (BST_insertHelper r d t)
      else BSTNode nd (ts @ [t]) l r)"

definition BST_insert :: "Transaction \<Rightarrow> BST \<Rightarrow> BST" where
  "BST_insert t tree = BST_insertHelper tree (date t) t"

text \<open>The traversals append to the \<^verbatim>\<open>result\<close> vector they are handed.\<close>

fun BST_inorderHelper :: "BST \<Rightarrow> Transaction list \<Rightarrow> Transaction list" where
  "BST_inorderHelper Null result = result"
| "BST_inorderHelper (BSTNode nd ts l r) result =
     BST_inorderHelper r (BST_inorderHelper l result @ ts)"

definition BST_inorderTraversal :: "BST \<Rightarrow> Transaction list" where
  "BST_inorderTraversal tree = BST_inorderHelper tree []"

fun BST_reverseInorderHelper :: "BST \<Rightarrow> Transaction list \<Rightarrow> Transaction list" where
  "BST_reverseInorderHelper Null result = result"
| "BST_reverseInorderHelper (BSTNode nd ts l r) result =
     BST_reverseInorderHelper l (BST_reverseInorderHelper r result @ ts)"

definition BST_reverseInorderTraversal :: "BST \<Rightarrow> Transaction list" where
  "BST_reverseInorderTraversal tree = BST_reverseInorderHelper tree []"

fun BST_rangeQueryHelper :: "BST \<Rightarrow> string \<Rightarrow> string \<Rightarrow> Transaction list \<Rightarrow> Transaction list" where
  "BST_rangeQueryHelper Null startDate endDate result = result"
| "BST_rangeQueryHelper (BSTNode nd ts l r) startDate endDate result =
     (let r1 = (if nd > startDate then BST_rangeQueryHelper l startDate endDate result
                else result);
          r2 = (if nd \<ge> startDate \<and> nd \<le> endDate then r1 @ ts else r1)
      in if nd < endDate then BST_rangeQueryHelper r startDate endDate r2 else r2)"

definition BST_rangeQuery :: "string \<Rightarrow> string \<Rightarrow> BST \<Rightarrow> Transaction list" where
  "BST_rangeQuery startDate endDate tree = BST_rangeQueryHelper tree startDate endDate []"

text \<open>\<^verbatim>\<open>vector::erase\<close> at the first element of a bucket with the id, if there is one.\<close>

fun eraseFirst :: "string \<Rightarrow> Transaction list \<Rightarrow> (Transaction list) option" where
  "eraseFirst i [] = None"
| "eraseFirst i (t # ts) =
     (if txn_id t = i then Some ts else map_option ((#) t) (eraseFirst i ts))"

fun BST_deleteTransactionHelper :: "BST \<Rightarrow> string \<Rightarrow> bool \<times> BST" where
  "BST_deleteTransactionHelper Null i = (False, Null)"
| "BST_deleteTransactionHelper (BSTNode nd ts l r) i =
     (case eraseFirst i ts of
        Some ts' \<Rightarrow> (True, BSTNode nd ts' l r)
      | None \<Rightarrow>
          (let (foundL, l') = BST_deleteTransactionHelper l i in
           if foundL then (True, BSTNode nd ts l' r)
           else (let (foundR, r') = BST_deleteTransactionHelper r i
                 in (foundR, BSTNode nd ts l' r'))))"

definition BST_deleteById :: "string \<Rightarrow> BST \<Rightarrow> bool \<times> BST" where
  "BST_deleteById i tree = BST_deleteTransactionHelper tree i"

text \<open>\<^verbatim>\<open>findHelper\<close>: \<open>None\<close> is the return value \<^verbatim>\<open>false\<close>.\<close>

fun findInBucket :: "string \<Rightarrow> Transaction list \<Rightarrow> Transaction option" where
  "findInBucket i [] = None"
| "findInBucket i (t # ts) = (if txn_id t = i then Some t else findInBucket i ts)"

fun BST_findHelper :: "BST \<Rightarrow> string \<Rightarrow> Transaction option" where
  "BST_findHelper Null i = None"
| "BST_findHelper (BSTNode nd ts l r) i =
     (case findInBucket i ts of
        Some t \<Rightarrow> Some t
      | None \<Rightarrow>
          (case BST_findHelper l i of
             Some t \<Rightarrow> Some t
           | None \<Rightarrow> BST_findHelper r i))"

definition BST_findById :: "string \<Rightarrow> BST \<Rightarrow> Transaction option" where
  "BST_findById i tree = BST_findHelper tree i"

definition BST_getByMonth :: "string \<Rightarrow> BST \<Rightarrow> Transaction list" where
  "BST_getByMonth yearMonth tree =
     BST_rangeQuery (yearMonth @ ''-01'') (yearMonth @ ''-31'') tree"

definition BST_clear :: "BST \<Rightarrow> BST" where
  "BST_clear tree = Null"

section \<open>HashMap (hashmap.h)\<close>

definition TABLE_SIZE :: nat where
  "TABLE_SIZE = 100"

text \<open>
  The value of a \<^verbatim>\<open>char\<close> as the arithmetic of \<^verbatim>\<open>hash\<close> sees it. \<^verbatim>\<open>char\<close> is taken to
  be signed (as on x86-64); for ASCII keys the signed and the unsigned reading agree.
\<close>

definition char_value :: "char \<Rightarrow> int" where
  "char_value c = (if of_char c < (128::nat) then int (of_char c) else int (of_char c) - 256)"

text \<open>
  The loop of \<^verbatim>\<open>hash\<close>: \<^verbatim>\<open>hashVal\<close> is an \<^verbatim>\<open>unsigned long\<close> (64 bits), so the sum is
  reduced modulo \<open>2 ^ 64\<close> before the remainder by \<^verbatim>\<open>m\<close> is taken; \<^verbatim>\<open>p_pow\<close> stays
  within \<open>0..99\<close>.
\<close>

fun hash_loop :: "string \<Rightarrow> int \<Rightarrow> int \<Rightarrow> int" where
  "hash_loop [] hashVal p_pow = hashVal"
| "hash_loop (c # cs) hashVal p_pow =
     hash_loop cs
       (((hashVal + (char_value c - 97 + 1) * p_pow) mod 2 ^ 64) mod int TABLE_SIZE)
       ((p_pow * 31) mod int TABLE_SIZE)"

definition HashMap_hash :: "string \<Rightarrow> nat" where
  "HashMap_hash key = nat (hash_loop key 0 1)"

text \<open>
  The bucket array \<^verbatim>\<open>table\<close> has \<^verbatim>\<open>TABLE_SIZE\<close> slots and is never resized: it is a
  function from the slot index to the chain stored there, first node first.
\<close>

type_synonym 'v HashMap = "nat \<Rightarrow> (string \<times> 'v) list"

definition HashMap_new :: "'v HashMap" where
  "HashMap_new = (\<lambda>i. [])"

text \<open>Overwrite the value of the first node with the key; \<open>None\<close> when no node has it.\<close>

fun chain_update :: "string \<Rightarrow> 'v \<Rightarrow> (string \<times> 'v) list \<Rightarrow> ((string \<times> 'v) list) option" where
  "chain_update key v [] = None"
| "chain_update key v ((k, x) # r) =
     (if k = key then Some ((k, v) # r) else map_option ((#) (k, x)) (chain_update key v r))"

fun chain_search :: "string \<Rightarrow> (string \<times> 'v) list \<Rightarrow> 'v option" where
  "chain_search key [] = None"
| "chain_search key ((k, x) # r) = (if k = key then Some x else chain_search key r)"

fun chain_remove :: "string \<Rightarrow> (string \<times> 'v) list \<Rightarrow> ((string \<times> 'v) list) option" where
  "chain_remove key [] = None"
| "chain_remove key ((k, x) # r) =
     (if k = key then Some r else map_option ((#) (k, x)) (chain_remove key r))"

definition HashMap_insert :: "string \<Rightarrow> 'v \<Rightarrow> 'v HashMap \<Rightarrow> 'v HashMap" where
  "HashMap_insert key v table =
     (let index = HashMap_hash key in
      case chain_update key v (table index) of
        Some chain \<Rightarrow> table(index := chain)
      | None \<Rightarrow> table(index := (key, v) # table index))"

text \<open>\<^verbatim>\<open>search\<close>: \<open>None\<close> is the return value \<^verbatim>\<open>false\<close> (the out-parameter is untouched).\<close>

definition HashMap_search :: "string \<Rightarrow> 'v HashMap \<Rightarrow> 'v option" where
  "HashMap_search key table = chain_search key (table (HashMap_hash key))"

definition HashMap_remove :: "string \<Rightarrow> 'v HashMap \<Rightarrow> bool \<times> 'v HashMap" where
  "HashMap_remove key table =
     (let index = HashMap_hash key in
      case chain_remove key (table index) of
        Some chain \<Rightarrow> (True, table(index := chain))
      | None \<Rightarrow> (False, table))"

definition HashMap_update :: "string \<Rightarrow> 'v \<Rightarrow> 'v HashMap \<Rightarrow> bool \<times> 'v HashMap" where
  "HashMap_update key v table =
     (let index = HashMap_hash key in
      case chain_update key v (table index) of
        Some chain \<Rightarrow> (True, table(index := chain))
      | None \<Rightarrow> (False, table))"

definition HashMap_getAllPairs :: "'v HashMap \<Rightarrow> (string \<times> 'v) list" where
  "HashMap_getAllPairs table = concat (map table [0..<TABLE_SIZE])"

section \<open>Trie (trie.h)\<close>

text \<open>
  A trie node: its children (the \<^verbatim>\<open>unordered_map\<close>, as an association list with one
  entry per character), \<^verbatim>\<open>isEndOfWord\<close> and \<^verbatim>\<open>word\<close>.
\<close>

datatype TrieNode = TrieNode (children: "(char \<times> TrieNode) list") (isEndOfWord: bool) (word: string)

record Trie =
  trie_root :: TrieNode
  wordCount :: int

definition Trie_new :: Trie where
  "Trie_new = \<lparr>trie_root = TrieNode [] False [], wordCount = 0\<rparr>"

text \<open>\<^verbatim>\<open>::tolower\<close> in the C locale.\<close>

definition tolower :: "char \<Rightarrow> char" where
  "tolower c =
     (if (65::nat) \<le> of_char c \<and> of_char c \<le> (90::nat) then char_of (of_char c + (32::nat))
      else c)"

definition toLower :: "string \<Rightarrow> string" where
  "toLower str = map tolower str"

fun setChild :: "char \<Rightarrow> TrieNode \<Rightarrow> (char \<times> TrieNode) list \<Rightarrow> (char \<times> TrieNode) list" where
  "setChild c n [] = [(c, n)]"
| "setChild c n ((k, v) # r) = (if k = c then (k, n) # r else (k, v) # setChild c n r)"

text \<open>
  The walk of \<^verbatim>\<open>insert\<close> along the lower-cased word, creating missing children; at the
  end node the word is recorded unless one is recorded already. The flag is whether
  \<^verbatim>\<open>wordCount\<close> is incremented.
\<close>

fun insertPath :: "string \<Rightarrow> string \<Rightarrow> TrieNode \<Rightarrow> TrieNode \<times> bool" where
  "insertPath [] w (TrieNode ch e wd) =
     (if \<not> e then (TrieNode ch True w, True) else (TrieNode ch e wd, False))"
| "insertPath (c # cs) w (TrieNode ch e wd) =
     (let child = (case map_of ch c of None \<Rightarrow> TrieNode [] False [] | Some n \<Rightarrow> n);
          (child', inc) = insertPath cs w child
      in (TrieNode (setChild c child' ch) e wd, inc))"

definition Trie_insert :: "string \<Rightarrow> Trie \<Rightarrow> Trie" where
  "Trie_insert w t =
     (if w = [] then t
      else (let (root', inc) = insertPath (toLower w) w (trie_root t)
            in t\<lparr>trie_root := root', wordCount := (if inc then wordCount t + 1 else wordCount t)\<rparr>))"

section \<open>MaxHeap and CategoryMaxHeap (heap.h)\<close>

text \<open>
  The two heap classes run the same code over a vector, one ordered by
  \<^verbatim>\<open>amount\<close>, the other by \<^verbatim>\<open>totalAmount\<close>. The functions below take that field
  as the parameter \<open>key\<close>; the vector is a list and indices are natural numbers (the
  source's \<^verbatim>\<open>int\<close> indices are never negative where the vector is read).
\<close>

definition swap :: "nat \<Rightarrow> nat \<Rightarrow> 'a list \<Rightarrow> 'a list" where
  "swap i j xs = xs[i := xs ! j, j := xs ! i]"

definition parent :: "nat \<Rightarrow> nat" where
  "parent i = (i - 1) div 2"

definition leftChild :: "nat \<Rightarrow> nat" where
  "leftChild i = 2 * i + 1"

definition rightChild :: "nat \<Rightarrow> nat" where
  "rightChild i = 2 * i + 2"

text \<open>The index \<^verbatim>\<open>largest\<close> that \<^verbatim>\<open>heapifyDown(i)\<close> computes before it swaps.\<close>

definition largestOf :: "('a \<Rightarrow> real) \<Rightarrow> nat \<Rightarrow> 'a list \<Rightarrow> nat" where
  "largestOf key i heap =
     (let l = leftChild i;
          r = rightChild i;
          largest = (if l < length heap \<and> key (heap ! l) > key (heap ! i) then l else i)
      in if r < length heap \<and> key (heap ! r) > key (heap ! largest) then r else largest)"

function heapifyDown :: "('a \<Rightarrow> real) \<Rightarrow> nat \<Rightarrow> 'a list \<Rightarrow> 'a list" where
  "heapifyDown key i heap =
     (let largest = largestOf key i heap in
      if largest \<noteq> i then heapifyDown key largest (swap i largest heap) else heap)"
  by pat_completeness auto
termination
proof (relation "measure (\<lambda>(key, i, heap). length heap - i)")
  show "wf (measure (\<lambda>(key, i, heap). length heap - i))" by simp
next
  fix key :: "'a \<Rightarrow> real" and i :: nat and heap :: "'a list" and largest :: nat
  assume "largest = largestOf key i heap" and "largest \<noteq> i"
  then have "i < largest \<and> largest < length heap"
    by (auto simp: largestOf_def Let_def leftChild_def rightChild_def split: if_splits)
  then show "((key, largest, swap i largest heap), (key, i, heap))
      \<in> measure (\<lambda>(key, i, heap). length heap - i)"
    by (auto simp: swap_def)
qed

declare heapifyDown.simps [simp del]

function heapifyUp :: "('a \<Rightarrow> real) \<Rightarrow> nat \<Rightarrow> 'a list \<Rightarrow> 'a list" where
  "heapifyUp key i heap =
     (if i > 0 \<and> key (heap ! parent i) < key (heap ! i)
      then heapifyUp key (parent i) (swap (parent i) i heap)
      else heap)"
  by pat_completeness auto
termination
  by (relation "measure (\<lambda>(key, i, heap). i)") (auto simp: parent_def)

declare heapifyUp.simps [simp del]

text \<open>The loop of \<^verbatim>\<open>buildHeap\<close>: \<open>buildLoop n\<close> runs \<^verbatim>\<open>heapifyDown(i)\<close> for
  \<open>i = n - 1\<close> down to \<open>0\<close>.\<close>

fun buildLoop :: "('a \<Rightarrow> real) \<Rightarrow> nat \<Rightarrow> 'a list \<Rightarrow> 'a list" where
  "buildLoop key 0 heap = heap"
| "buildLoop key (Suc i) heap = buildLoop key i (heapifyDown key i heap)"

definition buildHeap :: "('a \<Rightarrow> real) \<Rightarrow> 'a list \<Rightarrow> 'a list" where
  "buildHeap key xs = buildLoop key (length xs div 2) xs"

definition heapInsert :: "('a \<Rightarrow> real) \<Rightarrow> 'a \<Rightarrow> 'a list \<Rightarrow> 'a list" where
  "heapInsert key x heap = heapifyUp key (length heap) (heap @ [x])"

text \<open>\<^verbatim>\<open>extractMax\<close>: \<open>None\<close> is the return value \<^verbatim>\<open>false\<close>.\<close>

definition extractMax :: "('a \<Rightarrow> real) \<Rightarrow> 'a list \<Rightarrow> ('a \<times> 'a list) option" where
  "extractMax key heap =
     (if heap = [] then None
      else (let result = heap ! 0;
                h1 = butlast (heap[0 := last heap]);
                h2 = (if h1 \<noteq> [] then heapifyDown key 0 h1 else h1)
            in Some (result, h2)))"

text \<open>The loop of \<^verbatim>\<open>getTopK\<close>, with the number of iterations still allowed.\<close>

fun topKLoop :: "('a \<Rightarrow> real) \<Rightarrow> nat \<Rightarrow> 'a list \<Rightarrow> 'a list \<Rightarrow> 'a list" where
  "topKLoop key 0 heap result = result"
| "topKLoop key (Suc n) heap result =
     (if heap = [] then result
      else (case extractMax key heap of
              Some (t, heap') \<Rightarrow> topKLoop key n heap' (result @ [t])
            | None \<Rightarrow> topKLoop key n heap result))"

text \<open>\<^verbatim>\<open>getTopK\<close> restores the vector from its backup, so it only returns the result.\<close>

definition getTopK :: "('a \<Rightarrow> real) \<Rightarrow> int \<Rightarrow> 'a list \<Rightarrow> 'a list" where
  "getTopK key k heap = topKLoop key (nat k) heap []"

type_synonym MaxHeap = "Transaction list"

definition MaxHeap_buildHeap :: "Transaction list \<Rightarrow> MaxHeap" where
  "MaxHeap_buildHeap ts = buildHeap amount ts"

definition MaxHeap_insert :: "Transaction \<Rightarrow> MaxHeap \<Rightarrow> MaxHeap" where
  "MaxHeap_insert t heap = heapInsert amount t heap"

definition MaxHeap_getTopK :: "int \<Rightarrow> MaxHeap \<Rightarrow> Transaction list" where
  "MaxHeap_getTopK k heap = getTopK amount k heap"

definition MaxHeap_clear :: "MaxHeap \<Rightarrow> MaxHeap" where
  "MaxHeap_clear heap = []"

type_synonym CategoryMaxHeap = "CategoryAmount list"

definition CategoryMaxHeap_buildHeap :: "CategoryAmount list \<Rightarrow> CategoryMaxHeap" where
  "CategoryMaxHeap_buildHeap cs = buildHeap totalAmount cs"

definition CategoryMaxHeap_getTopK :: "int \<Rightarrow> CategoryMaxHeap \<Rightarrow> CategoryAmount list" where
  "CategoryMaxHeap_getTopK k heap = getTopK totalAmount k heap"

definition CategoryMaxHeap_clear :: "CategoryMaxHeap \<Rightarrow> CategoryMaxHeap" where
  "CategoryMaxHeap_clear heap = []"

section \<open>FinanceEngine (finance_engine.h)\<close>

subsection \<open>String streams\<close>

text \<open>
  The engine writes undo records with a \<^verbatim>\<open>std::stringstream\<close> and reads them back in
  \<^verbatim>\<open>undo\<close>. An input stream is the text still to be read and its fail bit. The
  standard library's formatting and parsing of a \<^verbatim>\<open>double\<close> are parameters of the
  engine's functions: \<open>fmt\<close> is \<^verbatim>\<open>operator<<(double)\<close>, and \<open>scan\<close> is
  \<^verbatim>\<open>operator>>(double&)\<close>, returning the value read and the text behind it, or \<open>None\<close>
  when no number can be read.
\<close>

type_synonym istream = "string \<times> bool"

text \<open>
  \<^verbatim>\<open>std::getline(ss, str, delim)\<close> into a fresh string: the text up to the delimiter,
  which is consumed. On a failed stream, or when nothing is left, the string stays empty
  and the fail bit is set.
\<close>

definition getline :: "char \<Rightarrow> istream \<Rightarrow> string \<times> istream" where
  "getline delim ss =
     (case ss of (buf, failed) \<Rightarrow>
        if failed then ([], (buf, True))
        else if buf = [] then ([], ([], True))
        else (takeWhile (\<lambda>c. c \<noteq> delim) buf,
              (drop 1 (dropWhile (\<lambda>c. c \<noteq> delim) buf), False)))"

text \<open>
  \<^verbatim>\<open>ss >> x\<close> for a \<^verbatim>\<open>double x\<close> declared without an initialiser. On a failed stream
  \<^verbatim>\<open>x\<close> is not written and stays indeterminate (\<open>None\<close>); when no number can be read
  \<^verbatim>\<open>x\<close> becomes \<open>0\<close> and the fail bit is set.
\<close>

definition read_double :: "(string \<Rightarrow> (real \<times> string) option) \<Rightarrow> istream \<Rightarrow> real option \<times> istream" where
  "read_double scan ss =
     (case ss of (buf, failed) \<Rightarrow>
        if failed then (None, (buf, True))
        else (case scan buf of
                Some (v, rest) \<Rightarrow> (Some v, (rest, False))
              | None \<Rightarrow> (Some 0, (buf, True))))"

text \<open>\<^verbatim>\<open>ss.ignore()\<close>: skip one character, if the stream is good and has one.\<close>

definition ignore :: "istream \<Rightarrow> istream" where
  "ignore ss = (case ss of (buf, failed) \<Rightarrow> if failed then (buf, True) else (drop 1 buf, False))"

text \<open>Decimal output of an integer (\<^verbatim>\<open>operator<<\<close> for \<^verbatim>\<open>int\<close> and \<^verbatim>\<open>time_t\<close>).\<close>

fun dec_nat :: "nat \<Rightarrow> string" where
  "dec_nat n =
     (if n < 10 then [char_of (48 + n)]
      else dec_nat (n div 10) @ [char_of (48 + n mod 10)])"

declare dec_nat.simps [simp del]

definition dec_int :: "int \<Rightarrow> string" where
  "dec_int i = (if i < 0 then CHR ''-'' # dec_nat (nat (- i)) else dec_nat (nat i))"

text \<open>The text both \<^verbatim>\<open>addTransaction\<close> and \<^verbatim>\<open>deleteTransaction\<close> record for undo.\<close>

definition serializeTransaction :: "(real \<Rightarrow> string) \<Rightarrow> Transaction \<Rightarrow> string" where
  "serializeTransaction fmt t =
     txn_id t @ ''|'' @ txn_type t @ ''|'' @ fmt (amount t) @ ''|'' @
     category t @ ''|'' @ description t @ ''|'' @ date t"

definition serializeBill :: "(real \<Rightarrow> string) \<Rightarrow> Bill \<Rightarrow> string" where
  "serializeBill fmt b =
     bill_id b @ ''|'' @ bill_name b @ ''|'' @ fmt (bill_amount b) @ ''|'' @
     dueDate b @ ''|'' @ bill_category b"

subsection \<open>The engine's state\<close>

text \<open>
  The members of \<^verbatim>\<open>class FinanceEngine\<close>, and the two function-local static counters
  of \<^verbatim>\<open>generateId\<close> and \<^verbatim>\<open>generateBillId\<close> (unbounded here; the source's \<^verbatim>\<open>int\<close>
  would overflow after \<open>2 ^ 31 - 1\<close> ids).
\<close>

record FinanceEngine =
  budgetMap :: "Budget HashMap"
  expenseMap :: "real HashMap"
  transactionList :: DoublyLinkedList
  transactionBST :: BST
  expenseHeap :: MaxHeap
  categoryHeap :: CategoryMaxHeap
  billQueue :: BillQueue
  undoStack :: UndoStack
  recentStack :: TransactionStack
  categoryTrie :: Trie
  payeeTrie :: Trie
  txnCounter :: int
  billCounter :: int

definition defaultCategories :: "string list" where
  "defaultCategories =
     [''Food'', ''Transport'', ''Shopping'', ''Entertainment'', ''Bills'',
      ''Healthcare'', ''Education'', ''Salary'', ''Freelance'', ''Investment'',
      ''Rent'', ''Utilities'', ''Groceries'', ''Dining'', ''Travel'']"

text \<open>The constructor: every member default-constructed, the category trie seeded.\<close>

definition FinanceEngine_new :: FinanceEngine where
  "FinanceEngine_new =
     \<lparr>budgetMap = HashMap_new, expenseMap = HashMap_new, transactionList = [],
      transactionBST = Null, expenseHeap = [], categoryHeap = [], billQueue = [],
      undoStack = UndoStack_new 50, recentStack = TransactionStack_new 100,
      categoryTrie = foldl (\<lambda>t cat. Trie_insert cat t) Trie_new defaultCategories,
      payeeTrie = Trie_new, txnCounter = 0, billCounter = 0\<rparr>"

text \<open>
  \<^verbatim>\<open>generateId\<close> and \<^verbatim>\<open>generateBillId\<close>; \<open>now\<close> is the value of
  \<^verbatim>\<open>std::time(nullptr)\<close> at the call. The caller stores the incremented counter.
\<close>

definition generateId :: "int \<Rightarrow> FinanceEngine \<Rightarrow> string" where
  "generateId now s = ''txn_'' @ dec_int now @ ''_'' @ dec_int (txnCounter s + 1)"

definition generateBillId :: "int \<Rightarrow> FinanceEngine \<Rightarrow> string" where
  "generateBillId now s = ''bill_'' @ dec_int now @ ''_'' @ dec_int (billCounter s + 1)"

text \<open>\<^verbatim>\<open>double current = 0; expenseMap.search(t.category, current);\<close>\<close>

definition currentExpense :: "string \<Rightarrow> FinanceEngine \<Rightarrow> real" where
  "currentExpense c s = (case HashMap_search c (expenseMap s) of Some v \<Rightarrow> v | None \<Rightarrow> 0)"

definition updateExpenseTracking :: "Transaction \<Rightarrow> bool \<Rightarrow> FinanceEngine \<Rightarrow> FinanceEngine" where
  "updateExpenseTracking t isAdd s =
     (if txn_type t \<noteq> ''expense'' then s
      else
        (let current = currentExpense (category t) s;
             total = (if isAdd then fadd current (amount t)
                      else max 0 (fsub current (amount t)));
             s1 = s\<lparr>expenseMap := HashMap_insert (category t) total (expenseMap s)\<rparr>
         in case HashMap_search (category t) (budgetMap s1) of
              Some b \<Rightarrow>
                s1\<lparr>budgetMap := snd (HashMap_update (category t) (b\<lparr>spent := total\<rparr>) (budgetMap s1))\<rparr>
            | None \<Rightarrow> s1))"

subsection \<open>Operations\<close>

text \<open>
  A mutating operation that records an undo action returns an option: \<open>None\<close> is the
  undefined behaviour of \<^verbatim>\<open>UndoStack::push\<close> (or of reading an indeterminate
  \<^verbatim>\<open>double\<close> in \<^verbatim>\<open>undo\<close>); \<open>Some\<close> carries the return value and the new state.
\<close>

definition addTransaction ::
  "(real \<Rightarrow> string) \<Rightarrow> int \<Rightarrow> string \<Rightarrow> real \<Rightarrow> string \<Rightarrow> string \<Rightarrow> string \<Rightarrow> FinanceEngine
     \<Rightarrow> (Transaction \<times> FinanceEngine) option" where
  "addTransaction fmt now ty amt cat desc dt s =
     (let t = \<lparr>txn_id = generateId now s, txn_type = ty, amount = amt, category = cat,
                description = desc, date = dt\<rparr>;
          s1 = s\<lparr>txnCounter := txnCounter s + 1\<rparr>;
          s2 = s1\<lparr>transactionList := DLL_addFront t (transactionList s1)\<rparr>;
          s3 = s2\<lparr>transactionBST := BST_insert t (transactionBST s2)\<rparr>;
          s4 = s3\<lparr>recentStack := TransactionStack_push t (recentStack s3)\<rparr>;
          s5 = updateExpenseTracking t True s4;
          s6 = (if ty = ''expense''
                then s5\<lparr>expenseHeap := MaxHeap_insert t (expenseHeap s5)\<rparr> else s5);
          s7 = s6\<lparr>categoryTrie := Trie_insert cat (categoryTrie s6)\<rparr>;
          s8 = (if desc \<noteq> [] then s7\<lparr>payeeTrie := Trie_insert desc (payeeTrie s7)\<rparr> else s7)
      in case UndoStack_push
                \<lparr>atype = ADD_TRANSACTION, adata = serializeTransaction fmt t\<rparr> (undoStack s8) of
           None \<Rightarrow> None
         | Some us \<Rightarrow> Some (t, s8\<lparr>undoStack := us\<rparr>))"

definition deleteTransaction ::
  "(real \<Rightarrow> string) \<Rightarrow> string \<Rightarrow> FinanceEngine \<Rightarrow> (bool \<times> FinanceEngine) option" where
  "deleteTransaction fmt i s =
     (case BST_findById i (transactionBST s) of
        None \<Rightarrow> Some (False, s)
      | Some t \<Rightarrow>
          (case UndoStack_push
                  \<lparr>atype = DELETE_TRANSACTION, adata = serializeTransaction fmt t\<rparr> (undoStack s) of
             None \<Rightarrow> None
           | Some us \<Rightarrow>
               (let s1 = s\<lparr>undoStack := us\<rparr>;
                    s2 = s1\<lparr>transactionList := snd (DLL_deleteById i (transactionList s1))\<rparr>;
                    s3 = s2\<lparr>transactionBST := snd (BST_deleteById i (transactionBST s2))\<rparr>
                in Some (True, updateExpenseTracking t False s3))))"

definition getAllTransactions :: "FinanceEngine \<Rightarrow> Transaction list" where
  "getAllTransactions s = DLL_traverseForward (transactionList s)"

definition getTransactionsByDateAsc :: "FinanceEngine \<Rightarrow> Transaction list" where
  "getTransactionsByDateAsc s = BST_inorderTraversal (transactionBST s)"

definition getTransactionsByDateDesc :: "FinanceEngine \<Rightarrow> Transaction list" where
  "getTransactionsByDateDesc s = BST_reverseInorderTraversal (transactionBST s)"

definition getTransactionsInRange :: "string \<Rightarrow> string \<Rightarrow> FinanceEngine \<Rightarrow> Transaction list" where
  "getTransactionsInRange startDate endDate s = BST_rangeQuery startDate endDate (transactionBST s)"

definition getRecentTransactions :: "int \<Rightarrow> FinanceEngine \<Rightarrow> Transaction list" where
  "getRecentTransactions n s = TransactionStack_getTopN n (recentStack s)"

definition getTransactionsByCategory :: "string \<Rightarrow> FinanceEngine \<Rightarrow> Transaction list" where
  "getTransactionsByCategory c s = DLL_filterByCategory c (transactionList s)"

definition setBudget ::
  "(real \<Rightarrow> string) \<Rightarrow> string \<Rightarrow> real \<Rightarrow> FinanceEngine \<Rightarrow> FinanceEngine option" where
  "setBudget fmt cat lmt s =
     (let spent0 = currentExpense cat s in
      case HashMap_search cat (budgetMap s) of
        Some existing \<Rightarrow>
          (case UndoStack_push
                  \<lparr>atype = UPDATE_BUDGET, adata = cat @ ''|'' @ fmt (limit existing)\<rparr> (undoStack s) of
             None \<Rightarrow> None
           | Some us \<Rightarrow>
               (let s1 = s\<lparr>undoStack := us\<rparr>;
                    s2 = s1\<lparr>budgetMap :=
                            snd (HashMap_update cat (existing\<lparr>limit := lmt\<rparr>) (budgetMap s1))\<rparr>
                in Some (s2\<lparr>categoryTrie := Trie_insert cat (categoryTrie s2)\<rparr>)))
      | None \<Rightarrow>
          (case UndoStack_push
                  \<lparr>atype = ADD_BUDGET, adata = cat @ ''|'' @ fmt lmt\<rparr> (undoStack s) of
             None \<Rightarrow> None
           | Some us \<Rightarrow>
               (let s1 = s\<lparr>undoStack := us\<rparr>;
                    b = \<lparr>budget_category = cat, limit = lmt, spent = spent0\<rparr>;
                    s2 = s1\<lparr>budgetMap := HashMap_insert cat b (budgetMap s1)\<rparr>
                in Some (s2\<lparr>categoryTrie := Trie_insert cat (categoryTrie s2)\<rparr>))))"

text \<open>\<^verbatim>\<open>getBudget\<close>: \<open>None\<close> is the return value \<^verbatim>\<open>false\<close>.\<close>

definition getBudget :: "string \<Rightarrow> FinanceEngine \<Rightarrow> Budget option" where
  "getBudget c s = HashMap_search c (budgetMap s)"

definition getAllBudgets :: "FinanceEngine \<Rightarrow> Budget list" where
  "getAllBudgets s = map snd (HashMap_getAllPairs (budgetMap s))"

definition addBill ::
  "(real \<Rightarrow> string) \<Rightarrow> int \<Rightarrow> string \<Rightarrow> real \<Rightarrow> string \<Rightarrow> string \<Rightarrow> FinanceEngine
     \<Rightarrow> (Bill \<times> FinanceEngine) option" where
  "addBill fmt now nm amt due cat s =
     (let b = \<lparr>bill_id = generateBillId now s, bill_name = nm, bill_amount = amt,
                dueDate = due, bill_category = cat, isPaid = False\<rparr>;
          s1 = s\<lparr>billCounter := billCounter s + 1\<rparr>;
          s2 = s1\<lparr>billQueue := BillQueue_enqueue b (billQueue s1)\<rparr>
      in case UndoStack_push \<lparr>atype = ADD_BILL, adata = serializeBill fmt b\<rparr> (undoStack s2) of
           None \<Rightarrow> None
         | Some us \<Rightarrow> Some (b, s2\<lparr>undoStack := us\<rparr>))"

definition getAllBills :: "FinanceEngine \<Rightarrow> Bill list" where
  "getAllBills s = BillQueue_getAllBills (billQueue s)"

definition getUnpaidBills :: "FinanceEngine \<Rightarrow> Bill list" where
  "getUnpaidBills s = BillQueue_getUnpaidBills (billQueue s)"

definition getOverdueBills :: "string \<Rightarrow> FinanceEngine \<Rightarrow> Bill list" where
  "getOverdueBills currentDate s = BillQueue_getOverdueBills currentDate (billQueue s)"

definition payBill :: "string \<Rightarrow> FinanceEngine \<Rightarrow> (bool \<times> FinanceEngine) option" where
  "payBill i s =
     (case BillQueue_findById i (billQueue s) of
        Some b \<Rightarrow>
          (case UndoStack_push \<lparr>atype = PAY_BILL, adata = i\<rparr> (undoStack s) of
             None \<Rightarrow> None
           | Some us \<Rightarrow>
               (let (paid, q) = BillQueue_markAsPaid i (billQueue s)
                in Some (paid, s\<lparr>undoStack := us, billQueue := q\<rparr>)))
      | None \<Rightarrow> Some (False, s))"

definition removeBill ::
  "(real \<Rightarrow> string) \<Rightarrow> string \<Rightarrow> FinanceEngine \<Rightarrow> (bool \<times> FinanceEngine) option" where
  "removeBill fmt i s =
     (case BillQueue_findById i (billQueue s) of
        Some b \<Rightarrow>
          (case UndoStack_push \<lparr>atype = DELETE_BILL, adata = serializeBill fmt b\<rparr> (undoStack s) of
             None \<Rightarrow> None
           | Some us \<Rightarrow>
               (let (removed, q) = BillQueue_removeById i (billQueue s)
                in Some (removed, s\<lparr>undoStack := us, billQueue := q\<rparr>)))
      | None \<Rightarrow> Some (False, s))"

definition getNextBill :: "FinanceEngine \<Rightarrow> Bill option" where
  "getNextBill s = BillQueue_peek (billQueue s)"

text \<open>\<^verbatim>\<open>getTopExpenses\<close> rebuilds the member \<^verbatim>\<open>expenseHeap\<close> and leaves it rebuilt.\<close>

definition getTopExpenses :: "int \<Rightarrow> FinanceEngine \<Rightarrow> Transaction list \<times> FinanceEngine" where
  "getTopExpenses k s =
     (let expenses = DLL_filterByType ''expense'' (transactionList s);
          s1 = s\<lparr>expenseHeap := MaxHeap_clear (expenseHeap s)\<rparr>;
          s2 = s1\<lparr>expenseHeap := MaxHeap_buildHeap expenses\<rparr>
      in (MaxHeap_getTopK k (expenseHeap s2), s2))"

text \<open>The loop of \<^verbatim>\<open>getTopCategories\<close> over the pairs of the expense map.\<close>

fun positiveCategories :: "(string \<times> real) list \<Rightarrow> CategoryAmount list" where
  "positiveCategories [] = []"
| "positiveCategories (pair # pairs) =
     (if snd pair > 0
      then \<lparr>ca_category = fst pair, totalAmount = snd pair\<rparr> # positiveCategories pairs
      else positiveCategories pairs)"

definition getTopCategories :: "int \<Rightarrow> FinanceEngine \<Rightarrow> CategoryAmount list \<times> FinanceEngine" where
  "getTopCategories k s =
     (let pairs = HashMap_getAllPairs (expenseMap s);
          categories = positiveCategories pairs;
          s1 = s\<lparr>categoryHeap := CategoryMaxHeap_clear (categoryHeap s)\<rparr>;
          s2 = s1\<lparr>categoryHeap := CategoryMaxHeap_buildHeap categories\<rparr>
      in (CategoryMaxHeap_getTopK k (categoryHeap s2), s2))"

text \<open>
  The reading of a transaction record in the \<^verbatim>\<open>DELETE_TRANSACTION\<close> case of
  \<^verbatim>\<open>undo\<close>: five fields split at \<^verbatim>\<open>'|'\<close>, the amount read as a number between
  them, the date up to the end of the line. \<open>None\<close> is the read of an amount that was
  never written.
\<close>

definition readTransaction ::
  "(string \<Rightarrow> (real \<times> string) option) \<Rightarrow> istream \<Rightarrow> Transaction option" where
  "readTransaction scan ss =
     (let (i, ss1) = getline CHR ''|'' ss;
          (ty, ss2) = getline CHR ''|'' ss1;
          (amt, ss3) = read_double scan ss2;
          ss4 = ignore ss3;
          (cat, ss5) = getline CHR ''|'' ss4;
          (desc, ss6) = getline CHR ''|'' ss5;
          (dt, ss7) = getline CHR 0x0A ss6
      in case amt of
           None \<Rightarrow> None
         | Some a \<Rightarrow>
             Some \<lparr>txn_id = i, txn_type = ty, amount = a, category = cat,
                   description = desc, date = dt\<rparr>)"

text \<open>\<^verbatim>\<open>undo\<close>. The record's text is read back through a string stream.\<close>

definition undo ::
  "(real \<Rightarrow> string) \<Rightarrow> (string \<Rightarrow> (real \<times> string) option) \<Rightarrow> FinanceEngine
     \<Rightarrow> (bool \<times> FinanceEngine) option" where
  "undo fmt scan s =
     (case UndoStack_pop (undoStack s) of
        None \<Rightarrow> Some (False, s)
      | Some (action, us) \<Rightarrow>
          (let s0 = s\<lparr>undoStack := us\<rparr>;
               ss = (adata action, False)
           in case atype action of
                ADD_TRANSACTION \<Rightarrow>
                  (let (token, ss1) = getline CHR ''|'' ss in
                   case deleteTransaction fmt token s0 of
                     None \<Rightarrow> None
                   | Some (_, s1) \<Rightarrow>
                       (case UndoStack_pop (undoStack s1) of
                          None \<Rightarrow> Some (True, s1)
                        | Some (_, us1) \<Rightarrow> Some (True, s1\<lparr>undoStack := us1\<rparr>)))
              | DELETE_TRANSACTION \<Rightarrow>
                  (case readTransaction scan ss of
                     None \<Rightarrow> None
                   | Some t \<Rightarrow>
                       (let s1 = s0\<lparr>transactionList := DLL_addFront t (transactionList s0)\<rparr>;
                            s2 = s1\<lparr>transactionBST := BST_insert t (transactionBST s1)\<rparr>
                        in Some (True, updateExpenseTracking t True s2)))
              | ADD_BUDGET \<Rightarrow>
                  (let (token, ss1) = getline CHR ''|'' ss
                   in Some (True, s0\<lparr>budgetMap := snd (HashMap_remove token (budgetMap s0))\<rparr>))
              | UPDATE_BUDGET \<Rightarrow>
                  (let (cat, ss1) = getline CHR ''|'' ss;
                       (oldLimit, ss2) = read_double scan ss1
                   in case HashMap_search cat (budgetMap s0) of
                        Some b \<Rightarrow>
                          (case oldLimit of
                             None \<Rightarrow> None
                           | Some l \<Rightarrow>
                               Some (True, s0\<lparr>budgetMap :=
                                 snd (HashMap_update cat (b\<lparr>limit := l\<rparr>) (budgetMap s0))\<rparr>))
                      | None \<Rightarrow> Some (True, s0))
              | _ \<Rightarrow> Some (True, s0)))"

definition canUndo :: "FinanceEngine \<Rightarrow> bool" where
  "canUndo s = (UndoStack_isEmpty (undoStack s) = False)"

definition loadTransaction ::
  "string \<Rightarrow> string \<Rightarrow> real \<Rightarrow> string \<Rightarrow> string \<Rightarrow> string \<Rightarrow> FinanceEngine \<Rightarrow> FinanceEngine" where
  "loadTransaction i ty amt cat desc dt s =
     (let t = \<lparr>txn_id = i, txn_type = ty, amount = amt, category = cat,
                description = desc, date = dt\<rparr>;
          s1 = s\<lparr>transactionList := DLL_addBack t (transactionList s)\<rparr>;
          s2 = s1\<lparr>transactionBST := BST_insert t (transactionBST s1)\<rparr>;
          s3 = s2\<lparr>recentStack := TransactionStack_push t (recentStack s2)\<rparr>;
          s4 = updateExpenseTracking t True s3;
          s5 = (if ty = ''expense''
                then s4\<lparr>expenseHeap := MaxHeap_insert t (expenseHeap s4)\<rparr> else s4);
          s6 = s5\<lparr>categoryTrie := Trie_insert cat (categoryTrie s5)\<rparr>
      in if desc \<noteq> [] then s6\<lparr>payeeTrie := Trie_insert desc (payeeTrie s6)\<rparr> else s6)"

definition loadBudget :: "string \<Rightarrow> real \<Rightarrow> FinanceEngine \<Rightarrow> FinanceEngine" where
  "loadBudget cat lmt s =
     (let spent0 = currentExpense cat s;
          b = \<lparr>budget_category = cat, limit = lmt, spent = spent0\<rparr>;
          s1 = s\<lparr>budgetMap := HashMap_insert cat b (budgetMap s)\<rparr>
      in s1\<lparr>categoryTrie := Trie_insert cat (categoryTrie s1)\<rparr>)"

definition loadBill ::
  "string \<Rightarrow> string \<Rightarrow> real \<Rightarrow> string \<Rightarrow> string \<Rightarrow> bool \<Rightarrow> FinanceEngine \<Rightarrow> FinanceEngine" where
  "loadBill i nm amt due cat paid s =
     (let b = \<lparr>bill_id = i, bill_name = nm, bill_amount = amt, dueDate = due,
                bill_category = cat, isPaid = False\<rparr>;
          b' = b\<lparr>isPaid := paid\<rparr>
      in s\<lparr>billQueue := BillQueue_enqueue b' (billQueue s)\<rparr>)"

definition clearAll :: "FinanceEngine \<Rightarrow> FinanceEngine" where
  "clearAll s =
     s\<lparr>transactionList := DLL_clear (transactionList s),
       transactionBST := BST_clear (transactionBST s),
       expenseHeap := MaxHeap_clear (expenseHeap s),
       recentStack := TransactionStack_clear (recentStack s),
       undoStack := UndoStack_clear (undoStack s),
       billQueue := BillQueue_clear (billQueue s)\<rparr>"

text \<open>The loop of \<^verbatim>\<open>getTotalBalance\<close>.\<close>

fun balanceLoop :: "Transaction list \<Rightarrow> real \<Rightarrow> real" where
  "balanceLoop [] balance = balance"
| "balanceLoop (t # ts) balance =
     balanceLoop ts (if txn_type t = ''income'' then fadd balance (amount t)
                     else fsub balance (amount t))"

definition getTotalBalance :: "FinanceEngine \<Rightarrow> real" where
  "getTotalBalance s = balanceLoop (DLL_traverseForward (transactionList s)) 0"

fun totalLoop :: "Transaction list \<Rightarrow> real \<Rightarrow> real" where
  "totalLoop [] sum0 = sum0"
| "totalLoop (t # ts) sum0 = totalLoop ts (fadd sum0 (amount t))"

definition getTotalIncome :: "FinanceEngine \<Rightarrow> real" where
  "getTotalIncome s = totalLoop (DLL_filterByType ''income'' (transactionList s)) 0"

definition getTotalExpenses :: "FinanceEngine \<Rightarrow> real" where
  "getTotalExpenses s = totalLoop (DLL_filterByType ''expense'' (transactionList s)) 0"

section \<open>Invariants\<close>

text \<open>
  The undo stack as its methods keep it: the counter is the length of the chain, and the
  capacity is at least 2 and not exceeded (the engine constructs it with capacity 50).
\<close>

definition UndoStack_wf :: "UndoStack \<Rightarrow> bool" where
  "UndoStack_wf st \<longleftrightarrow>
     us_count st = int (length (us_top st)) \<and> 2 \<le> us_maxSize st \<and> us_count st \<le> us_maxSize st"

text \<open>The total that \<^verbatim>\<open>updateExpenseTracking\<close> stores for the category of an expense.\<close>

definition newTotal :: "Transaction \<Rightarrow> bool \<Rightarrow> FinanceEngine \<Rightarrow> real" where
  "newTotal t isAdd s =
     (if isAdd then fadd (currentExpense (category t) s) (amount t)
      else max 0 (fsub (currentExpense (category t) s) (amount t)))"

text \<open>
  The max-heap property of a vector: node \<open>i\<close> is not smaller than its children
  (\<open>heap_at\<close>), from index \<open>j\<close> on (\<open>heap_from\<close>), everywhere (\<open>is_heap\<close>).
\<close>

definition heap_at :: "('a \<Rightarrow> real) \<Rightarrow> 'a list \<Rightarrow> nat \<Rightarrow> bool" where
  "heap_at key h i \<longleftrightarrow>
     (leftChild i < length h \<longrightarrow> key (h ! leftChild i) \<le> key (h ! i)) \<and>
     (rightChild i < length h \<longrightarrow> key (h ! rightChild i) \<le> key (h ! i))"

definition heap_from :: "('a \<Rightarrow> real) \<Rightarrow> nat \<Rightarrow> 'a list \<Rightarrow> bool" where
  "heap_from key j h \<longleftrightarrow> (\<forall>i. j \<le> i \<and> i < length h \<longrightarrow> heap_at key h i)"

definition is_heap :: "('a \<Rightarrow> real) \<Rightarrow> 'a list \<Rightarrow> bool" where
  "is_heap key h \<longleftrightarrow> heap_from key 0 h"

text \<open>
  A hash map as \<^verbatim>\<open>insert\<close>, \<^verbatim>\<open>update\<close> and \<^verbatim>\<open>remove\<close> keep it: a key occurs at most
  once in a chain, and only in the chain of its hash value.
\<close>

definition HashMap_wf :: "'v HashMap \<Rightarrow> bool" where
  "HashMap_wf m \<longleftrightarrow>
     (\<forall>i. distinct (map fst (m i)) \<and> (\<forall>k \<in> fst ` set (m i). HashMap_hash k = i))"

text \<open>
  The date index. \<open>inorder\<close> is the ascending traversal; \<open>bst_ok\<close> says that node
  dates are ordered as in a search tree and that every bucket holds transactions of its
  node's date only.
\<close>

fun inorder :: "BST \<Rightarrow> Transaction list" where
  "inorder Null = []"
| "inorder (BSTNode nd ts l r) = inorder l @ ts @ inorder r"

fun node_dates :: "BST \<Rightarrow> string set" where
  "node_dates Null = {}"
| "node_dates (BSTNode nd ts l r) = insert nd (node_dates l \<union> node_dates r)"

fun bst_ok :: "BST \<Rightarrow> bool" where
  "bst_ok Null = True"
| "bst_ok (BSTNode nd ts l r) =
     (bst_ok l \<and> bst_ok r \<and> (\<forall>d \<in> node_dates l. d < nd) \<and> (\<forall>d \<in> node_dates r. nd < d) \<and>
      (\<forall>t \<in> set ts. date t = nd))"

text \<open>
  \<open>arrival b ts\<close>: the date index \<open>b\<close> was built from the empty tree by \<^verbatim>\<open>insert\<close>
  and \<^verbatim>\<open>deleteById\<close> calls, and \<open>ts\<close> lists the transactions it holds in the order
  of their insertion. Deletion by id presumes that ids are unique.
\<close>

inductive arrival :: "BST \<Rightarrow> Transaction list \<Rightarrow> bool" where
  empty: "arrival Null []"
| inserted: "arrival b ts \<Longrightarrow> arrival (BST_insert t b) (ts @ [t])"
| deleted: "arrival b ts \<Longrightarrow> distinct (map txn_id ts) \<Longrightarrow>
            arrival (snd (BST_deleteById i b)) (filter (\<lambda>t. txn_id t \<noteq> i) ts)"

text \<open>
  \<open>ledger_indexed s ts\<close>: the date index of the engine holds, in insertion order
  \<open>ts\<close>, exactly the transactions of the ledger, and their ids are unique.
\<close>

definition ledger_indexed :: "FinanceEngine \<Rightarrow> Transaction list \<Rightarrow> bool" where
  "ledger_indexed s ts \<longleftrightarrow>
     arrival (transactionBST s) ts \<and> mset ts = mset (transactionList s) \<and>
     distinct (map txn_id ts)"

text \<open>
  The sum the budget of a category is meant to mirror, in the specification's words: the
  sum of the amounts of all expense transactions of the ledger with that category.
\<close>

definition expenseSum :: "string \<Rightarrow> Transaction list \<Rightarrow> real" where
  "expenseSum c ts =
     sum_list (map amount (filter (\<lambda>t. txn_type t = ''expense'' \<and> category t = c) ts))"

text \<open>
  \<open>budget_sync\<close>: no running total and no amount in the ledger is negative, and every
  budget's \<^verbatim>\<open>spent\<close> mirrors the running total of its category. (The running total
  itself is built by rounded additions and subtractions, so it agrees with the exact sum
  of the category's expenses up to rounding only.)
\<close>

definition budget_sync :: "FinanceEngine \<Rightarrow> bool" where
  "budget_sync s \<longleftrightarrow>
     (\<forall>c. 0 \<le> currentExpense c s) \<and>
     (\<forall>c b. getBudget c s = Some b \<longrightarrow> spent b = currentExpense c s) \<and>
     (\<forall>t \<in> set (transactionList s). 0 \<le> amount t)"

text \<open>
  The invariant of the engine: the constructor establishes it and the mutating
  operations keep it, for non-negative amounts and unique ids.
\<close>

definition engine_inv :: "FinanceEngine \<Rightarrow> Transaction list \<Rightarrow> bool" where
  "engine_inv s ts \<longleftrightarrow>
     UndoStack_wf (undoStack s) \<and> ledger_indexed s ts \<and>
     HashMap_wf (expenseMap s) \<and> HashMap_wf (budgetMap s) \<and> budget_sync s"

section \<open>Rounding\<close>

text \<open>
  \<open>ilog2\<close> is the binary exponent of a positive number; rounding is monotone, keeps
  integers below \<open>2 ^ 53\<close>, and is evaluated in the binade of its argument
  (\<open>rnd_pos_eval\<close>).
\<close>

lemma ilog2_bounds:
  assumes "0 < x"
  shows "2 powi ilog2 x \<le> x" and "x < 2 powi (ilog2 x + 1)"
proof -
  show "2 powi ilog2 x \<le> x"
  proof (cases "1 \<le> x")
    case True
    then have p: "0 < \<lfloor>x\<rfloor>" by simp
    from bitlen_bounds [OF p] have "2 ^ nat (bitlen \<lfloor>x\<rfloor> - 1) \<le> \<lfloor>x\<rfloor>" by simp
    then have "(2::real) ^ nat (bitlen \<lfloor>x\<rfloor> - 1) \<le> of_int \<lfloor>x\<rfloor>"
      by (metis of_int_le_iff of_int_numeral of_int_power)
    also have "\<dots> \<le> x" by simp
    finally have "(2::real) ^ nat (bitlen \<lfloor>x\<rfloor> - 1) \<le> x" .
    moreover from p have "1 \<le> bitlen \<lfloor>x\<rfloor>"
      using bitlen_eq_zero_iff [of "\<lfloor>x\<rfloor>"] bitlen_nonneg [of "\<lfloor>x\<rfloor>"] by linarith
    ultimately show ?thesis using True by (simp add: ilog2_def power_int_def)
  next
    case False
    define y where "y = 1 / x"
    define m where "m = \<lceil>y\<rceil> - 1"
    from False assms have y1: "1 < y" by (simp add: y_def)
    then have m: "0 < m" unfolding m_def by linarith
    from bitlen_bounds [OF m] have "m < 2 ^ nat (bitlen m)" by simp
    then have "\<lceil>y\<rceil> \<le> 2 ^ nat (bitlen m)" by (simp add: m_def)
    then have "of_int \<lceil>y\<rceil> \<le> (2::real) ^ nat (bitlen m)"
      by (metis of_int_le_iff of_int_numeral of_int_power)
    then have "y \<le> 2 ^ nat (bitlen m)" by linarith
    then have "1 / 2 ^ nat (bitlen m) \<le> x"
      using assms by (simp add: y_def field_simps)
    moreover have "ilog2 x = - bitlen m" using False by (simp add: ilog2_def m_def y_def)
    moreover have "0 \<le> bitlen m" by (rule bitlen_nonneg)
    ultimately show ?thesis
      by (auto simp: power_int_def inverse_eq_divide power_one_over)
  qed
  show "x < 2 powi (ilog2 x + 1)"
  proof (cases "1 \<le> x")
    case True
    then have p: "0 < \<lfloor>x\<rfloor>" by simp
    from bitlen_bounds [OF p] have "\<lfloor>x\<rfloor> < 2 ^ nat (bitlen \<lfloor>x\<rfloor>)" by simp
    then have "\<lfloor>x\<rfloor> + 1 \<le> 2 ^ nat (bitlen \<lfloor>x\<rfloor>)" by simp
    then have "of_int (\<lfloor>x\<rfloor> + 1) \<le> (2::real) ^ nat (bitlen \<lfloor>x\<rfloor>)"
      by (metis of_int_le_iff of_int_numeral of_int_power)
    moreover have "x < of_int (\<lfloor>x\<rfloor> + 1)" by linarith
    ultimately have "x < 2 ^ nat (bitlen \<lfloor>x\<rfloor>)" by linarith
    then show ?thesis using True bitlen_nonneg [of "\<lfloor>x\<rfloor>"] by (simp add: ilog2_def power_int_def)
  next
    case False
    define y where "y = 1 / x"
    define m where "m = \<lceil>y\<rceil> - 1"
    from False assms have y1: "1 < y" by (simp add: y_def)
    then have m: "0 < m" unfolding m_def by linarith
    have il: "ilog2 x = - bitlen m" using False by (simp add: ilog2_def m_def y_def)
    have b1: "1 \<le> bitlen m"
      using m bitlen_eq_zero_iff [of m] bitlen_nonneg [of m] by linarith
    from bitlen_bounds [OF m] have "2 ^ nat (bitlen m - 1) \<le> m" by simp
    then have "(2::real) ^ nat (bitlen m - 1) \<le> of_int m"
      by (metis of_int_le_iff of_int_numeral of_int_power)
    moreover have "of_int m < y" unfolding m_def by linarith
    ultimately have "2 ^ nat (bitlen m - 1) < y" by linarith
    then have "x < 1 / 2 ^ nat (bitlen m - 1)"
      using assms by (simp add: y_def field_simps)
    moreover have "2 powi (ilog2 x + 1) = 1 / (2::real) ^ nat (bitlen m - 1)"
    proof (cases "bitlen m = 1")
      case True
      then show ?thesis by (simp add: il)
    next
      case False
      with b1 have "- bitlen m + 1 < 0" by simp
      then show ?thesis
        by (simp add: il power_int_def inverse_eq_divide power_one_over)
    qed
    ultimately show ?thesis by simp
  qed
qed


lemma powi2_less_D: "(2::real) powi a < 2 powi b \<Longrightarrow> a < b"
proof (rule ccontr)
  assume l: "(2::real) powi a < 2 powi b" and "\<not> a < b"
  then have "b \<le> a" by simp
  then have "(2::real) powi b \<le> 2 powi a" by (rule power_int_increasing) simp
  with l show False by simp
qed

lemma ilog2_unique:
  assumes "0 < x" and "2 powi k \<le> x" and "x < 2 powi (k + 1)"
  shows "ilog2 x = k"
proof -
  have "(2::real) powi ilog2 x < 2 powi (k + 1)"
    using ilog2_bounds(1) [OF assms(1)] assms(3) by linarith
  then have "ilog2 x < k + 1" by (rule powi2_less_D)
  moreover have "(2::real) powi k < 2 powi (ilog2 x + 1)"
    using ilog2_bounds(2) [OF assms(1)] assms(2) by linarith
  then have "k < ilog2 x + 1" by (rule powi2_less_D)
  ultimately show ?thesis by simp
qed

lemma ilog2_mono:
  assumes "0 < x" and "x \<le> y"
  shows "ilog2 x \<le> ilog2 y"
proof -
  have "(2::real) powi ilog2 x < 2 powi (ilog2 y + 1)"
    using ilog2_bounds(1) [OF assms(1)] ilog2_bounds(2) [of y] assms by linarith
  then have "ilog2 x < ilog2 y + 1" by (rule powi2_less_D)
  then show ?thesis by simp
qed

lemma round_even_bounds: "\<lfloor>y\<rfloor> \<le> round_even y" "round_even y \<le> \<lfloor>y\<rfloor> + 1"
  by (simp_all add: round_even_def Let_def)

lemma round_even_of_int [simp]: "round_even (of_int n) = n"
  by (simp add: round_even_def)

lemma round_even_mono:
  assumes "x \<le> y"
  shows "round_even x \<le> round_even y"
proof (cases "\<lfloor>x\<rfloor> = \<lfloor>y\<rfloor>")
  case True
  with assms show ?thesis by (auto simp: round_even_def Let_def)
next
  case False
  with assms have "\<lfloor>x\<rfloor> + 1 \<le> \<lfloor>y\<rfloor>" using floor_mono [OF assms] by linarith
  with round_even_bounds(2) [of x] round_even_bounds(1) [of y] show ?thesis by linarith
qed

lemma rnd_mag_nonneg: "0 \<le> a \<Longrightarrow> 0 \<le> rnd_mag a"
proof -
  assume a: "0 \<le> a"
  define e where "e = max (ilog2 a - 52) (- 1074)"
  have "0 \<le> a / 2 powi e" using a by simp
  then have "round_even 0 \<le> round_even (a / 2 powi e)" by (rule round_even_mono)
  then have "0 \<le> round_even (a / 2 powi e)" using round_even_of_int [of 0] by simp
  then show ?thesis by (simp add: rnd_mag_def Let_def e_def)
qed

lemma rnd_mag_0 [simp]: "rnd_mag 0 = 0"
  using round_even_of_int [of 0] by (simp add: rnd_mag_def Let_def del: round_even_of_int)

lemma rnd_mag_mono_pos:
  assumes x: "0 < x" and xy: "x \<le> y"
  shows "rnd_mag x \<le> rnd_mag y"
proof -
  define ex where "ex = max (ilog2 x - 52) (- 1074)"
  define ey where "ey = max (ilog2 y - 52) (- 1074)"
  from x xy have y: "0 < y" by simp
  have k: "ilog2 x \<le> ilog2 y" by (rule ilog2_mono [OF x xy])
  then have e: "ex \<le> ey" by (simp add: ex_def ey_def)
  have rx: "rnd_mag x = of_int (round_even (x / 2 powi ex)) * 2 powi ex"
    by (simp add: rnd_mag_def Let_def ex_def)
  have ry: "rnd_mag y = of_int (round_even (y / 2 powi ey)) * 2 powi ey"
    by (simp add: rnd_mag_def Let_def ey_def)
  show ?thesis
  proof (cases "ex = ey")
    case True
    have "x / 2 powi ey \<le> y / 2 powi ey" using xy by (simp add: divide_right_mono)
    then have "round_even (x / 2 powi ey) \<le> round_even (y / 2 powi ey)" by (rule round_even_mono)
    then show ?thesis unfolding rx ry True by (simp add: mult_right_mono)
  next
    case False
    with e have lt: "ex < ey" by simp
    then have ey_eq: "ey = ilog2 y - 52" by (auto simp: ex_def ey_def)
    have pos: "0 < ilog2 y - ex" using lt ey_eq by simp
    define n where "n = nat (ilog2 y - ex)"
    have pn: "(2::real) powi (ilog2 y - ex) = of_int (2 ^ n)"
      using pos by (simp add: n_def power_int_def)
    have "x < 2 powi (ilog2 x + 1)" by (rule ilog2_bounds(2) [OF x])
    also have "\<dots> \<le> 2 powi ilog2 y"
      using lt ey_eq by (auto simp: ex_def intro!: power_int_increasing)
    finally have "x / 2 powi ex \<le> 2 powi ilog2 y / 2 powi ex"
      by (simp add: divide_right_mono)
    also have "\<dots> = 2 powi (ilog2 y - ex)"
      by (rule power_int_diff [symmetric]) simp
    finally have "round_even (x / 2 powi ex) \<le> round_even (of_int (2 ^ n))"
      unfolding pn by (rule round_even_mono)
    then have "round_even (x / 2 powi ex) \<le> 2 ^ n"
      by (simp only: round_even_of_int)
    then have "real_of_int (round_even (x / 2 powi ex)) \<le> of_int (2 ^ n)"
      by (simp only: of_int_le_iff)
    then have "of_int (round_even (x / 2 powi ex)) \<le> (2::real) powi (ilog2 y - ex)"
      by (simp only: pn)
    then have "rnd_mag x \<le> 2 powi (ilog2 y - ex) * 2 powi ex"
      unfolding rx by (rule mult_right_mono) simp
    also have "\<dots> = 2 powi (ilog2 y - ex + ex)"
      by (rule power_int_add [symmetric]) simp
    finally have ub: "rnd_mag x \<le> 2 powi ilog2 y" by simp
    have p52: "(2::real) powi (ilog2 y - ey) = of_int (2 ^ nat 52)"
      by (simp only: ey_eq) (simp add: power_int_def)
    have "(2::real) powi ilog2 y / 2 powi ey \<le> y / 2 powi ey"
      using ilog2_bounds(1) [OF y] by (simp add: divide_right_mono)
    moreover have "(2::real) powi ilog2 y / 2 powi ey = 2 powi (ilog2 y - ey)"
      by (rule power_int_diff [symmetric]) simp
    ultimately have "of_int (2 ^ nat 52) \<le> y / 2 powi ey"
      by (simp only: p52)
    then have "round_even (of_int (2 ^ nat 52)) \<le> round_even (y / 2 powi ey)"
      by (rule round_even_mono)
    then have "2 ^ nat 52 \<le> round_even (y / 2 powi ey)"
      by (simp only: round_even_of_int)
    then have "real_of_int (2 ^ nat 52) \<le> of_int (round_even (y / 2 powi ey))"
      by (simp only: of_int_le_iff)
    then have "2 powi (ilog2 y - ey) \<le> real_of_int (round_even (y / 2 powi ey))"
      by (simp only: p52)
    then have "2 powi (ilog2 y - ey) * 2 powi ey \<le> rnd_mag y"
      unfolding ry by (rule mult_right_mono) simp
    moreover have "(2::real) powi (ilog2 y - ey) * 2 powi ey = 2 powi (ilog2 y - ey + ey)"
      by (rule power_int_add [symmetric]) simp
    ultimately have "2 powi ilog2 y \<le> rnd_mag y" by simp
    then show ?thesis using ub by linarith
  qed
qed

lemma rnd_mag_mono:
  assumes "0 \<le> x" and "x \<le> y"
  shows "rnd_mag x \<le> rnd_mag y"
proof (cases "x = 0")
  case True
  with assms rnd_mag_nonneg [of y] show ?thesis by simp
next
  case False
  with assms have "0 < x" by simp
  then show ?thesis using assms(2) by (rule rnd_mag_mono_pos)
qed

lemma rnd_mono:
  assumes "x \<le> y"
  shows "rnd x \<le> rnd y"
proof -
  consider "y < 0" | "x < 0" "0 \<le> y" | "0 \<le> x" by linarith
  then show ?thesis
  proof cases
    case 1
    with assms have "rnd_mag (- y) \<le> rnd_mag (- x)" by (intro rnd_mag_mono) simp_all
    with 1 assms show ?thesis by (simp add: rnd_def)
  next
    case 2
    then have "0 \<le> rnd_mag (- x)" "0 \<le> rnd_mag y" by (simp_all add: rnd_mag_nonneg)
    with 2 show ?thesis by (simp add: rnd_def)
  next
    case 3
    with assms have "rnd_mag x \<le> rnd_mag y" by (intro rnd_mag_mono)
    with 3 assms show ?thesis by (simp add: rnd_def)
  qed
qed

lemma rnd_mag_eval:
  assumes "0 < a" and "2 powi k \<le> a" and "a < 2 powi (k + 1)" and "e = max (k - 52) (- 1074)"
  shows "rnd_mag a = of_int (round_even (a / 2 powi e)) * 2 powi e"
  using ilog2_unique [OF assms(1-3)] assms(4) by (simp add: rnd_mag_def Let_def)

lemma rnd_0 [simp]: "rnd 0 = 0"
  by (simp add: rnd_def)

lemma rnd_nonneg: "0 \<le> x \<Longrightarrow> 0 \<le> rnd x"
  using rnd_mono [of 0 x] by simp

lemma rnd_mag_of_int:
  assumes "0 < n" and "n < 2 ^ 53"
  shows "rnd_mag (of_int n) = of_int n"
proof -
  define e where "e = max (ilog2 (of_int n) - 52) (- 1074)"
  have "(2::real) powi ilog2 (of_int n) \<le> of_int n"
    using assms(1) by (intro ilog2_bounds(1)) simp
  also have "\<dots> < of_int (2 ^ 53)"
    using assms(2) by (simp only: of_int_less_iff)
  also have "\<dots> = 2 powi 53" by simp
  finally have "ilog2 (of_int n) < 53" by (rule powi2_less_D)
  then have e0: "e \<le> 0" by (simp add: e_def)
  then have "(2::real) powi e = 1 / 2 ^ nat (- e)"
    by (auto simp: power_int_def inverse_eq_divide power_one_over)
  then have "real_of_int n / 2 powi e = of_int (n * 2 ^ nat (- e))" by simp
  then have "of_int (round_even (real_of_int n / 2 powi e)) * (2::real) powi e =
      of_int (n * 2 ^ nat (- e)) * 2 powi e"
    by (simp only: round_even_of_int)
  also have "\<dots> = of_int n"
    using \<open>(2::real) powi e = 1 / 2 ^ nat (- e)\<close> by simp
  finally show ?thesis by (simp add: rnd_mag_def Let_def e_def)
qed

lemma rnd_of_int:
  assumes "\<bar>n\<bar> < 2 ^ 53"
  shows "rnd (of_int n) = of_int n"
proof -
  consider "n = 0" | "0 < n" | "n < 0" by linarith
  then show ?thesis
  proof cases
    case 1
    then show ?thesis by simp
  next
    case 2
    with assms rnd_mag_of_int [of n] show ?thesis by (simp add: rnd_def)
  next
    case 3
    with assms rnd_mag_of_int [of "- n"] show ?thesis by (simp add: rnd_def)
  qed
qed

lemma rnd_numeral [simp]:
  "numeral w < (2::int) ^ 53 \<Longrightarrow> rnd (numeral w) = numeral w"
  using rnd_of_int [of "numeral w"] by simp

lemma rnd_pos_eval:
  assumes "0 < a" and "2 powi k \<le> a" and "a < 2 powi (k + 1)" and "e = max (k - 52) (- 1074)"
  shows "rnd a = of_int (round_even (a / 2 powi e)) * 2 powi e"
  using rnd_mag_eval [OF assms] assms(1) by (simp add: rnd_def)

lemma percent_mono: "q \<le> q' \<Longrightarrow> fmul (rnd q) 100 \<le> fmul (rnd q') 100"
  unfolding fmul_def by (intro rnd_mono mult_right_mono) simp_all

lemma rnd_half: "rnd (1 / 2) = 1 / 2"
  using rnd_pos_eval [of "1 / 2" "- 1" "- 53"] by (simp add: round_even_def)

lemma rnd_four_fifths: "rnd (4 / 5) = 7205759403792794 / 9007199254740992"
  using rnd_pos_eval [of "4 / 5" "- 1" "- 53"] by (simp add: round_even_def)

lemma percent_at_half: "fmul (rnd (1 / 2)) 100 = 50"
  by (simp add: fmul_def rnd_half)

lemma percent_at_four_fifths: "fmul (rnd (4 / 5)) 100 = 80"
  using rnd_pos_eval [of "7205759403792794 / 9007199254740992 * 100" 6 "- 46"]
  by (simp add: fmul_def rnd_four_fifths round_even_def)

lemma rnd_1 [simp]: "rnd 1 = 1"
  using rnd_of_int [of 1] by simp

lemma percent_at_one: "fmul (rnd 1) 100 = 100"
  by (simp add: fmul_def)

lemma percent_below_half:
  "fmul (rnd (4503599627370495 / 9007199254740992)) 100 < 50"
proof -
  have a: "rnd (4503599627370495 / 9007199254740992) = 4503599627370495 / 9007199254740992"
    using rnd_pos_eval [of "4503599627370495 / 9007199254740992" "- 2" "- 54"]
    by (simp add: round_even_def)
  have b: "rnd (4503599627370495 / 9007199254740992 * 100) =
      3518437208883199 / 70368744177664"
    using rnd_pos_eval [of "4503599627370495 / 9007199254740992 * 100" 5 "- 47"]
    by (simp add: round_even_def)
  show ?thesis by (simp only: fmul_def a b)
qed

lemma percent_below_four_fifths:
  "fmul (rnd (3602879701896396 / 4503599627370496)) 100 < 80"
proof -
  have a: "rnd (3602879701896396 / 4503599627370496) = 3602879701896396 / 4503599627370496"
    using rnd_pos_eval [of "3602879701896396 / 4503599627370496" "- 1" "- 53"]
    by (simp add: round_even_def)
  have b: "rnd (3602879701896396 / 4503599627370496 * 100) =
      5629499534213119 / 70368744177664"
    using rnd_pos_eval [of "3602879701896396 / 4503599627370496 * 100" 6 "- 46"]
    by (simp add: round_even_def)
  show ?thesis by (simp only: fmul_def a b)
qed

lemma percent_below_one:
  "fmul (rnd (4503599627370495 / 4503599627370496)) 100 < 100"
proof -
  have a: "rnd (4503599627370495 / 4503599627370496) = 4503599627370495 / 4503599627370496"
    using rnd_pos_eval [of "4503599627370495 / 4503599627370496" "- 1" "- 53"]
    by (simp add: round_even_def)
  have b: "rnd (4503599627370495 / 4503599627370496 * 100) =
      7036874417766398 / 70368744177664"
    using rnd_pos_eval [of "4503599627370495 / 4503599627370496 * 100" 6 "- 46"]
    by (simp add: round_even_def)
  show ?thesis by (simp only: fmul_def a b)
qed

text \<open>
  The \<^verbatim>\<open>double\<close>s nearest to 0.1 and 0.2, their sum 0.30000000000000004, and that sum
  less 0.2, which is 0.10000000000000003 and not the \<^verbatim>\<open>double\<close> nearest to 0.1.
\<close>

lemma rnd_tenth_fifth:
  "rnd (1 / 10) = 3602879701896397 / 36028797018963968"
  "rnd (1 / 5) = 3602879701896397 / 18014398509481984"
  "rnd (3602879701896397 / 36028797018963968 + 3602879701896397 / 18014398509481984) =
     1351079888211149 / 4503599627370496"
  "rnd (1351079888211149 / 4503599627370496 - 3602879701896397 / 18014398509481984) =
     1801439850948199 / 18014398509481984"
  using rnd_pos_eval [of "1 / 10" "- 4" "- 56"] rnd_pos_eval [of "1 / 5" "- 3" "- 55"]
    rnd_pos_eval [of "3602879701896397 / 36028797018963968 + 3602879701896397 / 18014398509481984"
      "- 2" "- 54"]
    rnd_pos_eval [of "1351079888211149 / 4503599627370496 - 3602879701896397 / 18014398509481984"
      "- 4" "- 56"]
  by (simp_all add: round_even_def)

lemma DBL_MAX_ge: "2 ^ 60 \<le> DBL_MAX"
proof -
  have "(2::real) ^ 60 \<le> 2 ^ 971" by (rule power_increasing) simp_all
  also have "\<dots> \<le> (2 ^ 53 - 1) * 2 ^ 971" by simp
  finally show ?thesis by (simp only: DBL_MAX_def)
qed


section \<open>Budget alert levels\<close>

text \<open>
  The percentage the code computes against the exact quotient \<open>spent / limit * 100\<close>:
  it reaches a band edge whenever the quotient does, and stays below the edge when the
  quotient is below it by more than the relative margin \<open>2 ^ - 52\<close>.
\<close>

lemma percent_lower:
  assumes "limit b \<noteq> 0"
  shows "50 \<le> spent b / limit b * 100 \<Longrightarrow> 50 \<le> getPercentUsed b"
    and "80 \<le> spent b / limit b * 100 \<Longrightarrow> 80 \<le> getPercentUsed b"
    and "100 \<le> spent b / limit b * 100 \<Longrightarrow> 100 \<le> getPercentUsed b"
proof -
  define q where "q = spent b / limit b"
  have p: "getPercentUsed b = fmul (rnd q) 100"
    using assms by (simp add: getPercentUsed_def fdiv_def q_def)
  show "50 \<le> getPercentUsed b" if "50 \<le> spent b / limit b * 100"
  proof -
    from that have "1 / 2 \<le> q" unfolding q_def [symmetric] by linarith
    from percent_mono [OF this] percent_at_half show ?thesis unfolding p by linarith
  qed
  show "80 \<le> getPercentUsed b" if "80 \<le> spent b / limit b * 100"
  proof -
    from that have "4 / 5 \<le> q" unfolding q_def [symmetric] by linarith
    from percent_mono [OF this] percent_at_four_fifths show ?thesis unfolding p by linarith
  qed
  show "100 \<le> getPercentUsed b" if "100 \<le> spent b / limit b * 100"
  proof -
    from that have "1 \<le> q" unfolding q_def [symmetric] by linarith
    from percent_mono [OF this] percent_at_one show ?thesis unfolding p by linarith
  qed
qed

lemma percent_upper:
  assumes "limit b \<noteq> 0"
  shows "spent b / limit b * 100 < 50 * (1 - 1 / 2 ^ 52) \<Longrightarrow> getPercentUsed b < 50"
    and "spent b / limit b * 100 < 80 * (1 - 1 / 2 ^ 52) \<Longrightarrow> getPercentUsed b < 80"
    and "spent b / limit b * 100 < 100 * (1 - 1 / 2 ^ 52) \<Longrightarrow> getPercentUsed b < 100"
proof -
  define q where "q = spent b / limit b"
  have p: "getPercentUsed b = fmul (rnd q) 100"
    using assms by (simp add: getPercentUsed_def fdiv_def q_def)
  show "getPercentUsed b < 50" if "spent b / limit b * 100 < 50 * (1 - 1 / 2 ^ 52)"
  proof -
    from that have "q \<le> 4503599627370495 / 9007199254740992"
      unfolding q_def [symmetric] by simp
    from percent_mono [OF this] percent_below_half show ?thesis unfolding p by linarith
  qed
  show "getPercentUsed b < 80" if "spent b / limit b * 100 < 80 * (1 - 1 / 2 ^ 52)"
  proof -
    from that have "q \<le> 3602879701896396 / 4503599627370496"
      unfolding q_def [symmetric] by simp
    from percent_mono [OF this] percent_below_four_fifths show ?thesis unfolding p by linarith
  qed
  show "getPercentUsed b < 100" if "spent b / limit b * 100 < 100 * (1 - 1 / 2 ^ 52)"
  proof -
    from that have "q \<le> 4503599627370495 / 4503599627370496"
      unfolding q_def [symmetric] by simp
    from percent_mono [OF this] percent_below_one show ?thesis unfolding p by linarith
  qed
qed

text \<open>
  Claim C7, as amended. The alert level of a budget is determined by \<open>percentUsed\<close> as
  the code computes it: \<open>0\<close> when the limit is \<open>0\<close>, and otherwise the quotient
  \<open>spent / limit\<close> rounded to a \<^verbatim>\<open>double\<close>, times 100, rounded again. Below 50 the
  level is normal, from 50 up to (not including) 80 caution, from 80 up to (not including)
  100 warning, and from 100 on exceeded. Against the exact quotient
  \<open>spent / limit * 100\<close> the level is never in a lower band, and it is in the same band
  unless the exact quotient lies below a band edge by no more than the relative margin
  \<open>2 ^ - 52\<close>. A budget with 80 spent of a limit of 100 is at the warning level. (The
  statement needs no bound on the operands: an overflowing quotient compares with the
  band edges as the infinity of the machine does.)
\<close>

theorem getAlertLevel_bands:
  "getAlertLevel b =
     (let percentUsed = (if limit b = 0 then 0 else fmul (fdiv (spent b) (limit b)) 100)
      in if percentUsed < 50 then ''normal''
         else if percentUsed < 80 then ''caution''
         else if percentUsed < 100 then ''warning''
         else ''exceeded'') \<and>
   (limit b = 0 \<longrightarrow> getAlertLevel b = ''normal'') \<and>
   (limit b \<noteq> 0 \<and> spent b / limit b * 100 < 50 * (1 - 1 / 2 ^ 52) \<longrightarrow>
      getAlertLevel b = ''normal'') \<and>
   (limit b \<noteq> 0 \<and> 50 \<le> spent b / limit b * 100 \<and>
    spent b / limit b * 100 < 80 * (1 - 1 / 2 ^ 52) \<longrightarrow> getAlertLevel b = ''caution'') \<and>
   (limit b \<noteq> 0 \<and> 80 \<le> spent b / limit b * 100 \<and>
    spent b / limit b * 100 < 100 * (1 - 1 / 2 ^ 52) \<longrightarrow> getAlertLevel b = ''warning'') \<and>
   (limit b \<noteq> 0 \<and> 100 \<le> spent b / limit b * 100 \<longrightarrow> getAlertLevel b = ''exceeded'') \<and>
   (limit b \<noteq> 0 \<and> 50 \<le> spent b / limit b * 100 \<longrightarrow> getAlertLevel b \<noteq> ''normal'') \<and>
   (limit b \<noteq> 0 \<and> 80 \<le> spent b / limit b * 100 \<longrightarrow>
      getAlertLevel b = ''warning'' \<or> getAlertLevel b = ''exceeded'') \<and>
   getAlertLevel \<lparr>budget_category = ''Food'', limit = 100, spent = 80\<rparr> = ''warning''"
proof -
  let ?E = "spent b / limit b * 100"
  have 1: "getAlertLevel b =
     (let percentUsed = (if limit b = 0 then 0 else fmul (fdiv (spent b) (limit b)) 100)
      in if percentUsed < 50 then ''normal''
         else if percentUsed < 80 then ''caution''
         else if percentUsed < 100 then ''warning''
         else ''exceeded'')"
    by (simp add: getAlertLevel_def getPercentUsed_def Let_def)
  have 2: "limit b = 0 \<longrightarrow> getAlertLevel b = ''normal''"
    by (simp add: getAlertLevel_def getPercentUsed_def)
  have lv: "getAlertLevel b =
     (if getPercentUsed b < 50 then ''normal''
      else if getPercentUsed b < 80 then ''caution''
      else if getPercentUsed b < 100 then ''warning'' else ''exceeded'')"
    by (simp add: getAlertLevel_def Let_def)
  have 3: "limit b \<noteq> 0 \<and> ?E < 50 * (1 - 1 / 2 ^ 52) \<longrightarrow> getAlertLevel b = ''normal''"
  proof (intro impI, elim conjE)
    assume l: "limit b \<noteq> 0" and u: "?E < 50 * (1 - 1 / 2 ^ 52)"
    from percent_upper(1) [OF l u] show "getAlertLevel b = ''normal''" by (simp add: lv)
  qed
  have 4: "limit b \<noteq> 0 \<and> 50 \<le> ?E \<and> ?E < 80 * (1 - 1 / 2 ^ 52) \<longrightarrow>
      getAlertLevel b = ''caution''"
  proof (intro impI, elim conjE)
    assume l: "limit b \<noteq> 0" and a: "50 \<le> ?E" and u: "?E < 80 * (1 - 1 / 2 ^ 52)"
    from percent_lower(1) [OF l a] percent_upper(2) [OF l u]
    show "getAlertLevel b = ''caution''" by (simp add: lv)
  qed
  have 5: "limit b \<noteq> 0 \<and> 80 \<le> ?E \<and> ?E < 100 * (1 - 1 / 2 ^ 52) \<longrightarrow>
      getAlertLevel b = ''warning''"
  proof (intro impI, elim conjE)
    assume l: "limit b \<noteq> 0" and a: "80 \<le> ?E" and u: "?E < 100 * (1 - 1 / 2 ^ 52)"
    from percent_lower(2) [OF l a] percent_upper(3) [OF l u]
    show "getAlertLevel b = ''warning''" by (simp add: lv)
  qed
  have 6: "limit b \<noteq> 0 \<and> 100 \<le> ?E \<longrightarrow> getAlertLevel b = ''exceeded''"
  proof (intro impI, elim conjE)
    assume l: "limit b \<noteq> 0" and a: "100 \<le> ?E"
    from percent_lower(3) [OF l a] show "getAlertLevel b = ''exceeded''" by (simp add: lv)
  qed
  have 7: "limit b \<noteq> 0 \<and> 50 \<le> ?E \<longrightarrow> getAlertLevel b \<noteq> ''normal''"
  proof (intro impI, elim conjE)
    assume l: "limit b \<noteq> 0" and a: "50 \<le> ?E"
    from percent_lower(1) [OF l a] show "getAlertLevel b \<noteq> ''normal''" by (simp add: lv)
  qed
  have 8: "limit b \<noteq> 0 \<and> 80 \<le> ?E \<longrightarrow>
      getAlertLevel b = ''warning'' \<or> getAlertLevel b = ''exceeded''"
  proof (intro impI, elim conjE)
    assume l: "limit b \<noteq> 0" and a: "80 \<le> ?E"
    from percent_lower(2) [OF l a]
    show "getAlertLevel b = ''warning'' \<or> getAlertLevel b = ''exceeded''" by (simp add: lv)
  qed
  have 9: "getAlertLevel \<lparr>budget_category = ''Food'', limit = 100, spent = 80\<rparr> = ''warning''"
    using percent_at_four_fifths
    by (simp add: getAlertLevel_def getPercentUsed_def fdiv_def)
  from 1 2 3 4 5 6 7 8 9 show ?thesis by (intro conjI)
qed

theorem getAlertLevel_bands_witness:
  "getAlertLevel \<lparr>budget_category = ''Rent'', limit = 3, spent = 2\<rparr> = ''caution'' \<and>
   getAlertLevel \<lparr>budget_category = ''Rent'', limit = 3, spent = 1\<rparr> = ''normal'' \<and>
   getAlertLevel \<lparr>budget_category = ''Rent'', limit = 3, spent = 4\<rparr> = ''exceeded'' \<and>
   getAlertLevel \<lparr>budget_category = ''Rent'', limit = 0, spent = 4\<rparr> = ''normal''"
proof -
  note A = getAlertLevel_bands [of "\<lparr>budget_category = ''Rent'', limit = 3, spent = 2\<rparr>"]
  note B = getAlertLevel_bands [of "\<lparr>budget_category = ''Rent'', limit = 3, spent = 1\<rparr>"]
  note C = getAlertLevel_bands [of "\<lparr>budget_category = ''Rent'', limit = 3, spent = 4\<rparr>"]
  note D = getAlertLevel_bands [of "\<lparr>budget_category = ''Rent'', limit = 0, spent = 4\<rparr>"]
  have "getAlertLevel \<lparr>budget_category = ''Rent'', limit = 3, spent = 2\<rparr> = ''caution''"
    using A [THEN conjunct2, THEN conjunct2, THEN conjunct2, THEN conjunct1] by simp
  moreover have "getAlertLevel \<lparr>budget_category = ''Rent'', limit = 3, spent = 1\<rparr> = ''normal''"
    using B [THEN conjunct2, THEN conjunct2, THEN conjunct1] by simp
  moreover have "getAlertLevel \<lparr>budget_category = ''Rent'', limit = 3, spent = 4\<rparr> = ''exceeded''"
    using C [THEN conjunct2, THEN conjunct2, THEN conjunct2, THEN conjunct2, THEN conjunct2,
        THEN conjunct1] by simp
  moreover have "getAlertLevel \<lparr>budget_category = ''Rent'', limit = 0, spent = 4\<rparr> = ''normal''"
    using D [THEN conjunct2, THEN conjunct1] by simp
  ultimately show ?thesis by (intro conjI)
qed

text \<open>
  The claim as stated reads \<open>percentUsed\<close> as the quotient \<open>spent / limit * 100\<close>
  itself. For the limit \<open>5 * 2 ^ 55\<close> and \<open>2 ^ 57 - 16\<close> spent, both of them
  \<^verbatim>\<open>double\<close>s, that quotient is \<open>80 * (1 - 2 ^ - 53)\<close>, in the caution band; the
  division rounds to the \<^verbatim>\<open>double\<close> next below 0.8, whose product with 100 rounds
  to 80, and the level is warning.
\<close>

theorem getAlertLevel_band_edge:
  "(50::real) \<le> 144115188075855856 / 180143985094819840 * 100 \<and>
   (144115188075855856::real) / 180143985094819840 * 100 < 80 \<and>
   is_double 180143985094819840 \<and> is_double 144115188075855856 \<and>
   getAlertLevel \<lparr>budget_category = ''Food'', limit = 180143985094819840,
                    spent = 144115188075855856\<rparr> = ''warning''"
proof -
  have l: "rnd 180143985094819840 = 180143985094819840"
    using rnd_pos_eval [of 180143985094819840 57 5] by (simp add: round_even_def)
  have s: "rnd 144115188075855856 = 144115188075855856"
    using rnd_pos_eval [of 144115188075855856 56 4] by (simp add: round_even_def)
  have r: "\<bar>180143985094819840::real\<bar> \<le> DBL_MAX" "\<bar>144115188075855856::real\<bar> \<le> DBL_MAX"
    using DBL_MAX_ge by simp_all
  have q: "rnd (144115188075855856 / 180143985094819840) = 7205759403792793 / 9007199254740992"
    using rnd_pos_eval [of "144115188075855856 / 180143985094819840" "- 1" "- 53"]
    by (simp add: round_even_def)
  have p: "rnd (7205759403792793 / 9007199254740992 * 100) = 80"
    using rnd_pos_eval [of "7205759403792793 / 9007199254740992 * 100" 6 "- 46"]
    by (simp add: round_even_def)
  have "getPercentUsed \<lparr>budget_category = ''Food'', limit = 180143985094819840,
                    spent = 144115188075855856\<rparr> =
        fmul (fdiv 144115188075855856 180143985094819840) 100"
    by (simp add: getPercentUsed_def)
  also have "\<dots> = 80"
    by (simp only: fmul_def fdiv_def q p)
  finally have "getPercentUsed \<lparr>budget_category = ''Food'', limit = 180143985094819840,
                    spent = 144115188075855856\<rparr> = 80" .
  then have "getAlertLevel \<lparr>budget_category = ''Food'', limit = 180143985094819840,
                    spent = 144115188075855856\<rparr> = ''warning''"
    by (simp add: getAlertLevel_def)
  with l s r show ?thesis by (simp add: is_double_def)
qed


section \<open>Overdue bills\<close>

lemma BillQueue_getAllBills_id: "BillQueue_getAllBills q = q"
  by (induction q) auto

lemma BillQueue_getOverdueBills_filter:
  "BillQueue_getOverdueBills d q = filter (\<lambda>b. \<not> isPaid b \<and> dueDate b < d) q"
  by (induction q) auto

lemma BillQueue_findById_None:
  "BillQueue_findById i q = None \<Longrightarrow> b \<in> set q \<Longrightarrow> bill_id b \<noteq> i"
  by (induction q) (auto split: if_splits)

lemma BillQueue_markAsPaid_ids:
  "map bill_id (snd (BillQueue_markAsPaid i q)) = map bill_id q"
  by (induction q) (auto split: prod.splits)

lemma BillQueue_markAsPaid_paid:
  "distinct (map bill_id q) \<Longrightarrow> b \<in> set (snd (BillQueue_markAsPaid i q)) \<Longrightarrow> bill_id b = i
   \<Longrightarrow> isPaid b"
proof (induction q)
  case Nil
  then show ?case by simp
next
  case (Cons a q)
  show ?case
  proof (cases "bill_id a = i")
    case True
    have "bill_id x \<noteq> i" if "x \<in> set q" for x
      using Cons.prems(1) True that by (auto simp: image_iff)
    with Cons.prems True show ?thesis by auto
  next
    case False
    with Cons show ?thesis
      by (auto split: prod.splits)
  qed
qed

lemma UndoStack_push_new: "UndoStack_push a (UndoStack_new 50) = Some \<lparr>us_top = [a], us_count = 1, us_maxSize = 50\<rparr>"
  by (simp add: UndoStack_push_def UndoStack_new_def)

text \<open>
  Claim C8. For every as-of date, \<^verbatim>\<open>getOverdueBills\<close> returns exactly the bills of the
  queue that are unpaid and due strictly before that date, in queue order; a bill due on
  the as-of date itself is not returned; and once \<^verbatim>\<open>payBill\<close> has run for an id (bill
  ids being unique), no bill with that id is returned.
\<close>

theorem getOverdueBills_exact:
  "getOverdueBills asOf s = filter (\<lambda>b. \<not> isPaid b \<and> dueDate b < asOf) (getAllBills s) \<and>
   (\<forall>b \<in> set (getOverdueBills asOf s). \<not> isPaid b \<and> dueDate b < asOf \<and> dueDate b \<noteq> asOf) \<and>
   (\<forall>i r s'. payBill i s = Some (r, s') \<and> distinct (map bill_id (getAllBills s)) \<longrightarrow>
      (\<forall>b \<in> set (getOverdueBills asOf s'). bill_id b \<noteq> i))"
proof (intro conjI allI impI)
  show "getOverdueBills asOf s = filter (\<lambda>b. \<not> isPaid b \<and> dueDate b < asOf) (getAllBills s)"
    by (simp add: getOverdueBills_def getAllBills_def BillQueue_getAllBills_id
        BillQueue_getOverdueBills_filter)
  show "\<forall>b \<in> set (getOverdueBills asOf s). \<not> isPaid b \<and> dueDate b < asOf \<and> dueDate b \<noteq> asOf"
    by (auto simp: getOverdueBills_def BillQueue_getOverdueBills_filter)
next
  fix i r s'
  assume a: "payBill i s = Some (r, s') \<and> distinct (map bill_id (getAllBills s))"
  then have d: "distinct (map bill_id (billQueue s))"
    by (simp add: getAllBills_def BillQueue_getAllBills_id)
  show "\<forall>b \<in> set (getOverdueBills asOf s'). bill_id b \<noteq> i"
  proof (cases "BillQueue_findById i (billQueue s)")
    case None
    then have "s' = s" using a by (simp add: payBill_def)
    with None show ?thesis
      by (auto simp: getOverdueBills_def BillQueue_getOverdueBills_filter
          dest: BillQueue_findById_None)
  next
    case (Some b0)
    then have "billQueue s' = snd (BillQueue_markAsPaid i (billQueue s))"
      using a by (auto simp: payBill_def split: option.splits prod.splits)
    then show ?thesis
      using BillQueue_markAsPaid_paid [OF d]
      by (auto simp: getOverdueBills_def BillQueue_getOverdueBills_filter)
  qed
qed

theorem getOverdueBills_exact_witness:
  "getOverdueBills ''2024-02-01''
     (loadBill ''b1'' ''Rent'' 1000 ''2024-01-01'' ''Rent'' False FinanceEngine_new) =
     [\<lparr>bill_id = ''b1'', bill_name = ''Rent'', bill_amount = 1000, dueDate = ''2024-01-01'',
       bill_category = ''Rent'', isPaid = False\<rparr>] \<and>
   getOverdueBills ''2024-01-01''
     (loadBill ''b1'' ''Rent'' 1000 ''2024-01-01'' ''Rent'' False FinanceEngine_new) = [] \<and>
   (\<exists>s'. payBill ''b1''
       (loadBill ''b1'' ''Rent'' 1000 ''2024-01-01'' ''Rent'' False FinanceEngine_new) = Some (True, s')
      \<and> getOverdueBills ''2024-02-01'' s' = [])"
proof -
  let ?s = "loadBill ''b1'' ''Rent'' 1000 ''2024-01-01'' ''Rent'' False FinanceEngine_new"
  let ?b = "\<lparr>bill_id = ''b1'', bill_name = ''Rent'', bill_amount = 1000, dueDate = ''2024-01-01'',
       bill_category = ''Rent'', isPaid = False\<rparr>"
  let ?s' = "?s\<lparr>undoStack := \<lparr>us_top = [\<lparr>atype = PAY_BILL, adata = ''b1''\<rparr>], us_count = 1, us_maxSize = 50\<rparr>,
                billQueue := [?b\<lparr>isPaid := True\<rparr>]\<rparr>"
  have q: "getAllBills ?s = [?b]"
    by (simp add: getAllBills_def loadBill_def FinanceEngine_new_def BillQueue_enqueue_def)
  have p: "payBill ''b1'' ?s = Some (True, ?s')"
    by (simp add: payBill_def loadBill_def FinanceEngine_new_def BillQueue_enqueue_def
        UndoStack_push_new)
  have d: "distinct (map bill_id (getAllBills ?s))"
    by (simp add: q)
  note inst = getOverdueBills_exact [of _ ?s]
  have 1: "getOverdueBills ''2024-02-01'' ?s = [?b]"
    using inst [of "''2024-02-01''"] by (simp add: q)
  have 2: "getOverdueBills ''2024-01-01'' ?s = []"
    using inst [of "''2024-01-01''"] by (simp add: q)
  have 3: "\<forall>b \<in> set (getOverdueBills ''2024-02-01'' ?s'). bill_id b \<noteq> ''b1''"
    using inst [of "''2024-02-01''"] p d by blast
  have "set (getOverdueBills ''2024-02-01'' ?s') \<subseteq> {?b\<lparr>isPaid := True\<rparr>}"
    using getOverdueBills_exact [of "''2024-02-01''" ?s'] by (auto simp: getAllBills_def)
  with 3 have "getOverdueBills ''2024-02-01'' ?s' = []"
    by (cases "getOverdueBills ''2024-02-01'' ?s'") auto
  with 1 2 p show ?thesis by blast
qed


section \<open>The undo stack\<close>

lemma dropBottom_butlast:
  "dropBottom xs = (2 \<le> length xs, if 2 \<le> length xs then butlast xs else xs)"
  by (induction xs rule: dropBottom.induct) (auto split: prod.splits)

lemma UndoStack_push_wf:
  assumes "UndoStack_wf st"
  shows "UndoStack_push a st =
     Some (st\<lparr>us_top := a # (if us_count st \<ge> us_maxSize st then butlast (us_top st) else us_top st),
              us_count := (if us_count st \<ge> us_maxSize st then us_count st else us_count st + 1)\<rparr>)"
  using assms
  by (cases "us_top st")
    (auto simp: UndoStack_wf_def UndoStack_push_def dropBottom_butlast Let_def)

lemma UndoStack_push_preserves_wf:
  assumes "UndoStack_wf st"
  shows "\<exists>st'. UndoStack_push a st = Some st' \<and> UndoStack_wf st' \<and> us_maxSize st' = us_maxSize st"
  using assms UndoStack_push_wf [OF assms, of a]
  by (auto simp: UndoStack_wf_def)

lemma UndoStack_bound:
  assumes "UndoStack_wf st" and "UndoStack_push a st = Some st'"
  shows "UndoStack_size st' \<le> us_maxSize st' \<and>
         us_top st' = a # (if UndoStack_size st \<ge> us_maxSize st then butlast (us_top st) else us_top st)"
  using assms(2) UndoStack_push_wf [OF assms(1), of a] assms(1)
  by (auto simp: UndoStack_wf_def UndoStack_size_def)


text \<open>
  Claim C4 (evaluation at the failing input). With capacity 1, the second \<^verbatim>\<open>push\<close>
  finds the stack at capacity but deletes nothing, since the walk only ever deletes a
  node behind \<^verbatim>\<open>top\<close>: the stack then holds 2 entries. With capacity 0 the first
  \<^verbatim>\<open>push\<close> dereferences the null \<^verbatim>\<open>top\<close>. From capacity 2 on the bound holds
  (\<open>UndoStack_bound\<close>).
\<close>

theorem UndoStack_push_exceeds_bound:
  "Option.bind (UndoStack_push \<lparr>atype = ADD_BILL, adata = ''a''\<rparr> (UndoStack_new 1))
     (UndoStack_push \<lparr>atype = PAY_BILL, adata = ''b''\<rparr>) =
   Some \<lparr>us_top = [\<lparr>atype = PAY_BILL, adata = ''b''\<rparr>, \<lparr>atype = ADD_BILL, adata = ''a''\<rparr>],
         us_count = 2, us_maxSize = 1\<rparr> \<and>
   UndoStack_size \<lparr>us_top = [\<lparr>atype = PAY_BILL, adata = ''b''\<rparr>, \<lparr>atype = ADD_BILL, adata = ''a''\<rparr>],
         us_count = 2, us_maxSize = 1\<rparr> > 1 \<and>
   UndoStack_push \<lparr>atype = ADD_BILL, adata = ''a''\<rparr> (UndoStack_new 0) = None"
  by (simp add: UndoStack_push_def UndoStack_new_def UndoStack_size_def)


section \<open>clearAll\<close>

lemma takeN_Nil: "takeN n [] = []"
  by (cases n) auto

text \<open>
  Claim C9. \<^verbatim>\<open>clearAll\<close> empties the transaction list, the date index, the expense
  heap, the recent-transaction stack, the undo stack and the bill queue, and leaves the
  budget map (every budget with its \<^verbatim>\<open>spent\<close>), the expense totals and both tries as
  they were: \<^verbatim>\<open>getBudget\<close> and \<^verbatim>\<open>getAllBudgets\<close> answer as before the call.
\<close>

theorem clearAll_frame:
  "getAllTransactions (clearAll s) = [] \<and>
   getTransactionsByDateAsc (clearAll s) = [] \<and>
   transactionBST (clearAll s) = Null \<and>
   expenseHeap (clearAll s) = [] \<and>
   getRecentTransactions n (clearAll s) = [] \<and>
   us_top (undoStack (clearAll s)) = [] \<and>
   canUndo (clearAll s) = False \<and>
   getAllBills (clearAll s) = [] \<and>
   budgetMap (clearAll s) = budgetMap s \<and>
   expenseMap (clearAll s) = expenseMap s \<and>
   categoryTrie (clearAll s) = categoryTrie s \<and>
   payeeTrie (clearAll s) = payeeTrie s \<and>
   getBudget c (clearAll s) = getBudget c s \<and>
   getAllBudgets (clearAll s) = getAllBudgets s \<and>
   currentExpense c (clearAll s) = currentExpense c s"
  by (cases n rule: int_cases)
   (simp_all add: clearAll_def getAllTransactions_def getTransactionsByDateAsc_def
      BST_inorderTraversal_def BST_clear_def DLL_clear_def MaxHeap_clear_def
      getRecentTransactions_def TransactionStack_getTopN_def TransactionStack_clear_def
      UndoStack_clear_def canUndo_def UndoStack_isEmpty_def getAllBills_def BillQueue_clear_def
      getBudget_def getAllBudgets_def currentExpense_def takeN_Nil)


section \<open>Undo of bill actions\<close>

text \<open>
  With an \<^verbatim>\<open>ADD_BILL\<close>, \<^verbatim>\<open>DELETE_BILL\<close> or \<^verbatim>\<open>PAY_BILL\<close> record on top of the
  undo stack, \<^verbatim>\<open>undo\<close> pops the record, changes nothing else (bill queue, ledger,
  date index, budgets and totals are as before) and returns \<^verbatim>\<open>true\<close>. It returns
  \<^verbatim>\<open>false\<close> only when the undo stack is empty.
\<close>

lemma undo_bill_action:
  assumes "us_top (undoStack s) = a # rest"
    and "atype a = ADD_BILL \<or> atype a = DELETE_BILL \<or> atype a = PAY_BILL"
  shows "undo fmt scan s =
    Some (True, s\<lparr>undoStack := (undoStack s)\<lparr>us_top := rest,
                                             us_count := us_count (undoStack s) - 1\<rparr>\<rparr>)"
  using assms by (auto simp: undo_def UndoStack_pop_def Let_def)

lemma undo_False_empty:
  assumes "undo fmt scan s = Some (False, s')"
  shows "us_top (undoStack s) = [] \<and> s' = s"
proof (cases "us_top (undoStack s)")
  case Nil
  with assms show ?thesis by (simp add: undo_def UndoStack_pop_def)
next
  case (Cons a rest)
  then have "UndoStack_pop (undoStack s) =
      Some (a, (undoStack s)\<lparr>us_top := rest, us_count := us_count (undoStack s) - 1\<rparr>)"
    by (simp add: UndoStack_pop_def)
  with assms show ?thesis
    by (cases "atype a")
      (auto simp: undo_def Let_def case_prod_beta split: option.splits)
qed

text \<open>
  Claim C3 (evaluation at the failing input). \<^verbatim>\<open>addBill\<close> on a new engine queues the
  bill and writes an \<^verbatim>\<open>ADD_BILL\<close> record, with the bill's fields, for \<^verbatim>\<open>undo\<close>.
  \<^verbatim>\<open>undo\<close> then pops that record and returns \<^verbatim>\<open>true\<close>, although the bill is still
  queued and the ledger, the budgets and the totals are as they were: its switch handles
  the transaction and budget records only, and the default branch falls through to
  \<^verbatim>\<open>return true\<close>. So the return value does not tell whether anything was undone.
\<close>

theorem undo_returns_true_without_undoing:
  "(case addBill (\<lambda>x. ''1000'') 1700000000 ''Rent'' 1000 ''2024-01-01'' ''Rent'' FinanceEngine_new of
      None \<Rightarrow> False
    | Some (b, s1) \<Rightarrow>
        (case undo (\<lambda>x. ''1000'') (\<lambda>buf. None) s1 of
           None \<Rightarrow> False
         | Some (r, s2) \<Rightarrow>
             r = True \<and> getAllBills s1 = [b] \<and> getAllBills s2 = [b] \<and>
             getAllTransactions s2 = getAllTransactions s1 \<and>
             budgetMap s2 = budgetMap s1 \<and> expenseMap s2 = expenseMap s1))"
  by (simp add: addBill_def undo_def UndoStack_pop_def UndoStack_push_new Let_def
      FinanceEngine_new_def getAllBills_def BillQueue_getAllBills_id BillQueue_enqueue_def
      getAllTransactions_def)


section \<open>Hash map, expense tracking, identifiers\<close>

lemma chain_update_None_iff: "chain_update k v ch = None \<longleftrightarrow> chain_search k ch = None"
  by (induction ch) (auto split: if_splits)

lemma chain_search_update:
  "chain_update k v ch = Some ch' \<Longrightarrow>
   chain_search k' ch' = (if k' = k then Some v else chain_search k' ch)"
  by (induction ch arbitrary: ch') (auto split: if_splits)

lemma HashMap_search_insert:
  "HashMap_search k' (HashMap_insert k v m) = (if k' = k then Some v else HashMap_search k' m)"
  by (auto simp: HashMap_search_def HashMap_insert_def Let_def chain_search_update
      split: option.splits)

lemma HashMap_search_update:
  "HashMap_search k' (snd (HashMap_update k v m)) =
     (if k' = k \<and> HashMap_search k m \<noteq> None then Some v else HashMap_search k' m)"
proof (cases "chain_update k v (m (HashMap_hash k))")
  case None
  then have "chain_search k (m (HashMap_hash k)) = None"
    by (simp add: chain_update_None_iff)
  with None show ?thesis
    by (simp add: HashMap_search_def HashMap_update_def)
next
  case (Some ch')
  then have "chain_search k (m (HashMap_hash k)) \<noteq> None"
    using chain_update_None_iff [of k v "m (HashMap_hash k)"] by auto
  with Some show ?thesis
    by (auto simp: HashMap_search_def HashMap_update_def chain_search_update)
qed

lemma updateExpenseTracking_other:
  "txn_type t \<noteq> ''expense'' \<Longrightarrow> updateExpenseTracking t isAdd s = s"
  by (simp add: updateExpenseTracking_def)

lemma updateExpenseTracking_frame:
  "transactionList (updateExpenseTracking t isAdd s) = transactionList s"
  "transactionBST (updateExpenseTracking t isAdd s) = transactionBST s"
  "undoStack (updateExpenseTracking t isAdd s) = undoStack s"
  "billQueue (updateExpenseTracking t isAdd s) = billQueue s"
  "recentStack (updateExpenseTracking t isAdd s) = recentStack s"
  "expenseHeap (updateExpenseTracking t isAdd s) = expenseHeap s"
  "categoryHeap (updateExpenseTracking t isAdd s) = categoryHeap s"
  "categoryTrie (updateExpenseTracking t isAdd s) = categoryTrie s"
  "payeeTrie (updateExpenseTracking t isAdd s) = payeeTrie s"
  "txnCounter (updateExpenseTracking t isAdd s) = txnCounter s"
  "billCounter (updateExpenseTracking t isAdd s) = billCounter s"
  by (simp_all add: updateExpenseTracking_def Let_def split: option.splits)

lemma updateExpenseTracking_expenseMap:
  "expenseMap (updateExpenseTracking t isAdd s) =
     (if txn_type t = ''expense''
      then HashMap_insert (category t) (newTotal t isAdd s) (expenseMap s) else expenseMap s)"
  by (simp add: updateExpenseTracking_def newTotal_def Let_def split: option.splits)

lemma currentExpense_updateExpenseTracking:
  "currentExpense c (updateExpenseTracking t isAdd s) =
     (if txn_type t = ''expense'' \<and> c = category t then newTotal t isAdd s
      else currentExpense c s)"
  by (simp add: currentExpense_def updateExpenseTracking_expenseMap HashMap_search_insert)

lemma getBudget_updateExpenseTracking:
  "getBudget c (updateExpenseTracking t isAdd s) =
     (if txn_type t = ''expense'' \<and> c = category t
      then map_option (\<lambda>b. b\<lparr>spent := newTotal t isAdd s\<rparr>) (getBudget c s)
      else getBudget c s)"
  by (auto simp: getBudget_def updateExpenseTracking_def newTotal_def Let_def
      HashMap_search_update split: option.splits)

lemma digit_not_bar: "n < 10 \<Longrightarrow> char_of (48 + n :: nat) \<noteq> CHR ''|''"
proof
  assume "n < 10" and "char_of (48 + n) = CHR ''|''"
  then have "of_char (char_of (48 + n) :: char) = (of_char CHR ''|'' :: nat)" by simp
  then have "(48 + n) mod 256 = (124::nat)" by simp
  with \<open>n < 10\<close> show False by simp
qed

lemma dec_nat_no_bar: "CHR ''|'' \<notin> set (dec_nat n)"
proof (induction n rule: dec_nat.induct)
  case (1 n)
  show ?case
  proof (cases "n < 10")
    case True
    then show ?thesis using digit_not_bar [of n] by (subst dec_nat.simps) auto
  next
    case False
    have "n mod 10 < 10" by simp
    then have "char_of (48 + n mod 10) \<noteq> CHR ''|''" by (rule digit_not_bar)
    with False 1 show ?thesis by (subst dec_nat.simps) auto
  qed
qed

lemma dec_int_no_bar: "CHR ''|'' \<notin> set (dec_int i)"
  by (simp add: dec_int_def dec_nat_no_bar)

lemma generateId_no_bar: "CHR ''|'' \<notin> set (generateId now s)"
  by (simp add: generateId_def dec_int_no_bar)

lemma getline_prefix:
  "c \<notin> set xs \<Longrightarrow> getline c (xs @ c # ys, False) = (xs, (ys, False))"
proof -
  assume a: "c \<notin> set xs"
  then have 1: "takeWhile (\<lambda>x. x \<noteq> c) (xs @ c # ys) = xs"
    by (subst takeWhile_append2) auto
  from a have 2: "dropWhile (\<lambda>x. x \<noteq> c) (xs @ c # ys) = c # ys"
    by (subst dropWhile_append2) auto
  show ?thesis by (simp add: getline_def 1 2)
qed

lemma getline_serializeTransaction:
  "CHR ''|'' \<notin> set (txn_id t) \<Longrightarrow>
   fst (getline CHR ''|'' (serializeTransaction fmt t, False)) = txn_id t"
proof -
  assume a: "CHR ''|'' \<notin> set (txn_id t)"
  have "serializeTransaction fmt t = txn_id t @ CHR ''|'' #
     (txn_type t @ ''|'' @ fmt (amount t) @ ''|'' @ category t @ ''|'' @ description t @ ''|'' @ date t)"
    by (simp add: serializeTransaction_def)
  then show ?thesis using getline_prefix [OF a] by simp
qed

lemma findInBucket_append:
  "findInBucket i (ts @ us) = (case findInBucket i ts of Some t \<Rightarrow> Some t | None \<Rightarrow> findInBucket i us)"
  by (induction ts) auto

lemma BST_findHelper_insert_fresh:
  "BST_findHelper b (txn_id t) = None \<Longrightarrow>
   BST_findHelper (BST_insertHelper b d t) (txn_id t) = Some t"
  by (induction b) (auto simp: findInBucket_append split: option.splits)

lemma DLL_traverseForward_id: "DLL_traverseForward l = l"
  by (induction l) auto

section \<open>addTransaction followed by undo\<close>

lemma getBudget_frame [simp]:
  "getBudget c (s\<lparr>expenseMap := x1\<rparr>) = getBudget c s"
  "getBudget c (s\<lparr>transactionList := x2\<rparr>) = getBudget c s"
  "getBudget c (s\<lparr>transactionBST := x3\<rparr>) = getBudget c s"
  "getBudget c (s\<lparr>expenseHeap := x4\<rparr>) = getBudget c s"
  "getBudget c (s\<lparr>categoryHeap := x5\<rparr>) = getBudget c s"
  "getBudget c (s\<lparr>billQueue := x6\<rparr>) = getBudget c s"
  "getBudget c (s\<lparr>undoStack := x7\<rparr>) = getBudget c s"
  "getBudget c (s\<lparr>recentStack := x8\<rparr>) = getBudget c s"
  "getBudget c (s\<lparr>categoryTrie := x9\<rparr>) = getBudget c s"
  "getBudget c (s\<lparr>payeeTrie := x10\<rparr>) = getBudget c s"
  "getBudget c (s\<lparr>txnCounter := x11\<rparr>) = getBudget c s"
  "getBudget c (s\<lparr>billCounter := x12\<rparr>) = getBudget c s"
  by (simp_all add: getBudget_def)

lemma currentExpense_frame [simp]:
  "currentExpense c (s\<lparr>budgetMap := x0\<rparr>) = currentExpense c s"
  "currentExpense c (s\<lparr>transactionList := x2\<rparr>) = currentExpense c s"
  "currentExpense c (s\<lparr>transactionBST := x3\<rparr>) = currentExpense c s"
  "currentExpense c (s\<lparr>expenseHeap := x4\<rparr>) = currentExpense c s"
  "currentExpense c (s\<lparr>categoryHeap := x5\<rparr>) = currentExpense c s"
  "currentExpense c (s\<lparr>billQueue := x6\<rparr>) = currentExpense c s"
  "currentExpense c (s\<lparr>undoStack := x7\<rparr>) = currentExpense c s"
  "currentExpense c (s\<lparr>recentStack := x8\<rparr>) = currentExpense c s"
  "currentExpense c (s\<lparr>categoryTrie := x9\<rparr>) = currentExpense c s"
  "currentExpense c (s\<lparr>payeeTrie := x10\<rparr>) = currentExpense c s"
  "currentExpense c (s\<lparr>txnCounter := x11\<rparr>) = currentExpense c s"
  "currentExpense c (s\<lparr>billCounter := x12\<rparr>) = currentExpense c s"
  by (simp_all add: currentExpense_def)

lemma addTransaction_result:
  assumes wf: "UndoStack_wf (undoStack s)"
  shows "\<exists>s1. addTransaction fmt now ty amt cat desc dt s =
            Some (\<lparr>txn_id = generateId now s, txn_type = ty, amount = amt, category = cat,
                   description = desc, date = dt\<rparr>, s1) \<and>
          transactionList s1 = \<lparr>txn_id = generateId now s, txn_type = ty, amount = amt,
                   category = cat, description = desc, date = dt\<rparr> # transactionList s \<and>
          transactionBST s1 = BST_insert \<lparr>txn_id = generateId now s, txn_type = ty, amount = amt,
                   category = cat, description = desc, date = dt\<rparr> (transactionBST s) \<and>
          billQueue s1 = billQueue s \<and>
          undoStack s1 = (undoStack s)
            \<lparr>us_top := \<lparr>atype = ADD_TRANSACTION, adata = serializeTransaction fmt
                   \<lparr>txn_id = generateId now s, txn_type = ty, amount = amt,
                   category = cat, description = desc, date = dt\<rparr>\<rparr> #
                (if us_count (undoStack s) \<ge> us_maxSize (undoStack s)
                 then butlast (us_top (undoStack s)) else us_top (undoStack s)),
             us_count := (if us_count (undoStack s) \<ge> us_maxSize (undoStack s)
                 then us_count (undoStack s) else us_count (undoStack s) + 1)\<rparr> \<and>
          (\<forall>c. getBudget c s1 =
             (if ty = ''expense'' \<and> c = cat
              then map_option (\<lambda>b. b\<lparr>spent := fadd (currentExpense cat s) amt\<rparr>) (getBudget c s)
              else getBudget c s)) \<and>
          (\<forall>c. currentExpense c s1 =
             (if ty = ''expense'' \<and> c = cat then fadd (currentExpense cat s) amt
              else currentExpense c s))"
proof -
  let ?t = "\<lparr>txn_id = generateId now s, txn_type = ty, amount = amt, category = cat,
              description = desc, date = dt\<rparr>"
  let ?s4 = "s\<lparr>txnCounter := txnCounter s + 1,
               transactionList := DLL_addFront ?t (transactionList s),
               transactionBST := BST_insert ?t (transactionBST s),
               recentStack := TransactionStack_push ?t (recentStack s)\<rparr>"
  show ?thesis
    unfolding addTransaction_def Let_def
    by (simp add: UndoStack_push_wf [OF wf] updateExpenseTracking_frame DLL_addFront_def
        getBudget_updateExpenseTracking currentExpense_updateExpenseTracking newTotal_def)
qed


lemma deleteTransaction_result:
  assumes wf: "UndoStack_wf (undoStack s)"
    and f: "BST_findById i (transactionBST s) = Some t"
  shows "\<exists>s'. deleteTransaction fmt i s = Some (True, s') \<and>
          transactionList s' = snd (DLL_deleteById i (transactionList s)) \<and>
          transactionBST s' = snd (BST_deleteById i (transactionBST s)) \<and>
          billQueue s' = billQueue s \<and>
          undoStack s' = (undoStack s)
            \<lparr>us_top := \<lparr>atype = DELETE_TRANSACTION, adata = serializeTransaction fmt t\<rparr> #
                (if us_count (undoStack s) \<ge> us_maxSize (undoStack s)
                 then butlast (us_top (undoStack s)) else us_top (undoStack s)),
             us_count := (if us_count (undoStack s) \<ge> us_maxSize (undoStack s)
                 then us_count (undoStack s) else us_count (undoStack s) + 1)\<rparr> \<and>
          (\<forall>c. getBudget c s' =
             (if txn_type t = ''expense'' \<and> c = category t
              then map_option (\<lambda>b. b\<lparr>spent := max 0 (fsub (currentExpense (category t) s) (amount t))\<rparr>)
                     (getBudget c s)
              else getBudget c s)) \<and>
          (\<forall>c. currentExpense c s' =
             (if txn_type t = ''expense'' \<and> c = category t
              then max 0 (fsub (currentExpense (category t) s) (amount t))
              else currentExpense c s))"
  unfolding deleteTransaction_def Let_def
  by (simp add: f UndoStack_push_wf [OF wf] updateExpenseTracking_frame
      getBudget_updateExpenseTracking currentExpense_updateExpenseTracking newTotal_def)

lemma HashMap_search_new: "HashMap_search k HashMap_new = None"
  by (simp add: HashMap_search_def HashMap_new_def)

lemma UndoStack_wf_new: "UndoStack_wf (UndoStack_new 50)"
  by (simp add: UndoStack_wf_def UndoStack_new_def)

lemma loadTransaction_fields:
  "transactionList (loadTransaction i ty amt cat desc dt s) =
     transactionList s @ [\<lparr>txn_id = i, txn_type = ty, amount = amt, category = cat,
                            description = desc, date = dt\<rparr>]"
  "transactionBST (loadTransaction i ty amt cat desc dt s) =
     BST_insert \<lparr>txn_id = i, txn_type = ty, amount = amt, category = cat,
                            description = desc, date = dt\<rparr> (transactionBST s)"
  "undoStack (loadTransaction i ty amt cat desc dt s) = undoStack s"
  "currentExpense c (loadTransaction i ty amt cat desc dt s) =
     (if ty = ''expense'' \<and> c = cat then fadd (currentExpense cat s) amt else currentExpense c s)"
  by (simp_all add: loadTransaction_def Let_def updateExpenseTracking_frame DLL_addBack_def
      currentExpense_updateExpenseTracking newTotal_def)

lemma FinanceEngine_new_fields:
  "transactionList FinanceEngine_new = []"
  "transactionBST FinanceEngine_new = Null"
  "undoStack FinanceEngine_new = UndoStack_new 50"
  "expenseMap FinanceEngine_new = HashMap_new"
  "budgetMap FinanceEngine_new = HashMap_new"
  "billQueue FinanceEngine_new = []"
  by (simp_all add: FinanceEngine_new_def)

lemma currentExpense_new: "currentExpense c FinanceEngine_new = 0"
  by (simp add: currentExpense_def FinanceEngine_new_fields HashMap_search_new)

lemma loadTransaction_getBudget:
  "getBudget c (loadTransaction i ty amt cat desc dt s) =
     (if ty = ''expense'' \<and> c = cat
      then map_option (\<lambda>b. b\<lparr>spent := fadd (currentExpense cat s) amt\<rparr>) (getBudget c s)
      else getBudget c s)"
  by (simp add: loadTransaction_def Let_def getBudget_updateExpenseTracking newTotal_def)

text \<open>
  \<^verbatim>\<open>addTransaction\<close> followed at once by \<^verbatim>\<open>undo\<close>: the state reached. The budget
  of an expense's category ends with the total that \<^verbatim>\<open>updateExpenseTracking\<close>
  computes by adding the amount and subtracting it again.
\<close>

lemma addTransaction_undo_result:
  assumes wf: "UndoStack_wf (undoStack s)"
    and fresh: "BST_findById (generateId now s) (transactionBST s) = None"
  shows "\<exists>t s1 s2.
           addTransaction fmt now ty amt cat desc dt s = Some (t, s1) \<and>
           undo fmt scan s1 = Some (True, s2) \<and>
           getAllTransactions s1 = t # getAllTransactions s \<and>
           getAllTransactions s2 = getAllTransactions s \<and>
           getTotalBalance s2 = getTotalBalance s \<and>
           (\<forall>c. getBudget c s2 =
              (if ty = ''expense'' \<and> c = cat
               then map_option
                      (\<lambda>b. b\<lparr>spent := max 0 (fsub (fadd (currentExpense cat s) amt) amt)\<rparr>)
                      (getBudget c s)
               else getBudget c s)) \<and>
           canUndo s1 \<and>
           canUndo s2 = canUndo s \<and>
           us_top (undoStack s2) =
             take (nat (us_maxSize (undoStack s) - 1)) (us_top (undoStack s))"
proof -
  let ?t = "\<lparr>txn_id = generateId now s, txn_type = ty, amount = amt, category = cat,
              description = desc, date = dt\<rparr>"
  let ?A = "\<lparr>atype = ADD_TRANSACTION, adata = serializeTransaction fmt ?t\<rparr>"
  let ?D = "\<lparr>atype = DELETE_TRANSACTION, adata = serializeTransaction fmt ?t\<rparr>"
  let ?U = "undoStack s"
  let ?T = "if us_count ?U \<ge> us_maxSize ?U then butlast (us_top ?U) else us_top ?U"
  from addTransaction_result [OF wf, of fmt now ty amt cat desc dt]
  obtain s1 where add: "addTransaction fmt now ty amt cat desc dt s = Some (?t, s1)"
    and l1: "transactionList s1 = ?t # transactionList s"
    and b1: "transactionBST s1 = BST_insert ?t (transactionBST s)"
    and u1: "undoStack s1 = ?U\<lparr>us_top := ?A # ?T,
               us_count := (if us_count ?U \<ge> us_maxSize ?U then us_count ?U else us_count ?U + 1)\<rparr>"
    and g1: "\<And>c. getBudget c s1 =
             (if ty = ''expense'' \<and> c = cat
              then map_option (\<lambda>b. b\<lparr>spent := fadd (currentExpense cat s) amt\<rparr>) (getBudget c s)
              else getBudget c s)"
    and c1: "\<And>c. currentExpense c s1 =
             (if ty = ''expense'' \<and> c = cat then fadd (currentExpense cat s) amt
              else currentExpense c s)"
    by blast
  define us0 where "us0 = ?U\<lparr>us_top := ?T, us_count := int (length ?T)\<rparr>"
  have lenT: "int (length ?T) < us_maxSize ?U"
    using wf by (auto simp: UndoStack_wf_def)
  have pop1: "UndoStack_pop (undoStack s1) = Some (?A, us0)"
    using wf by (auto simp: UndoStack_pop_def u1 us0_def UndoStack_wf_def)
  have wf0: "UndoStack_wf us0"
    using wf lenT by (simp add: us0_def UndoStack_wf_def)
  let ?s0 = "s1\<lparr>undoStack := us0\<rparr>"
  have tok: "fst (getline CHR ''|'' (serializeTransaction fmt ?t, False)) = generateId now s"
    using getline_serializeTransaction [of ?t fmt] by (simp add: generateId_no_bar)
  have find: "BST_findById (generateId now s) (transactionBST ?s0) = Some ?t"
    using BST_findHelper_insert_fresh [of "transactionBST s" ?t "date ?t"] fresh
    by (simp add: b1 BST_findById_def BST_insert_def)
  have wf0': "UndoStack_wf (undoStack ?s0)" using wf0 by simp
  from deleteTransaction_result [OF wf0' find, of fmt]
  obtain s' where del: "deleteTransaction fmt (generateId now s) ?s0 = Some (True, s')"
    and l2: "transactionList s' = snd (DLL_deleteById (generateId now s) (transactionList ?s0))"
    and u2: "undoStack s' = us0\<lparr>us_top := ?D # ?T, us_count := int (length ?T) + 1\<rparr>"
    and g2: "\<And>c. getBudget c s' =
             (if ty = ''expense'' \<and> c = cat
              then map_option (\<lambda>b. b\<lparr>spent := max 0 (fsub (currentExpense cat ?s0) amt)\<rparr>)
                     (getBudget c ?s0)
              else getBudget c ?s0)"
    using lenT by (auto simp: us0_def)
  let ?s2 = "s'\<lparr>undoStack := us0\<rparr>"
  have pop2: "UndoStack_pop (undoStack s') = Some (?D, us0)"
    by (simp add: UndoStack_pop_def u2 us0_def)
  have un: "undo fmt scan s1 = Some (True, ?s2)"
    by (simp add: undo_def pop1 case_prod_beta tok del pop2)
  have l: "transactionList ?s2 = transactionList s"
    by (simp add: l2 l1)
  have g: "getBudget c ?s2 =
              (if ty = ''expense'' \<and> c = cat
               then map_option
                      (\<lambda>b. b\<lparr>spent := max 0 (fsub (fadd (currentExpense cat s) amt) amt)\<rparr>)
                      (getBudget c s)
               else getBudget c s)" for c
  proof (cases "ty = ''expense'' \<and> c = cat")
    case False
    then show ?thesis by (auto simp: g2 g1)
  next
    case True
    show ?thesis
    proof (cases "getBudget cat s")
      case None
      with True show ?thesis by (simp add: g2 g1)
    next
      case (Some b)
      with True show ?thesis by (simp add: g2 g1 c1)
    qed
  qed
  have len: "length ?T = (if us_count ?U \<ge> us_maxSize ?U then length (us_top ?U) - 1
                           else length (us_top ?U))"
    by simp
  have cu: "canUndo ?s2 = canUndo s"
  proof -
    have "canUndo ?s2 = (length ?T \<noteq> 0)"
      by (simp add: canUndo_def UndoStack_isEmpty_def us0_def)
    moreover have "canUndo s = (length (us_top ?U) \<noteq> 0)"
      using wf by (simp add: canUndo_def UndoStack_isEmpty_def UndoStack_wf_def)
    moreover have "(length ?T \<noteq> 0) = (length (us_top ?U) \<noteq> 0)"
      using wf unfolding len by (auto simp: UndoStack_wf_def)
    ultimately show ?thesis by simp
  qed
  have cu1: "canUndo s1"
    using wf by (auto simp: canUndo_def UndoStack_isEmpty_def u1 UndoStack_wf_def)
  have tk: "us_top (undoStack ?s2) = take (nat (us_maxSize ?U - 1)) (us_top ?U)"
  proof (cases "us_count ?U \<ge> us_maxSize ?U")
    case True
    with wf have "nat (us_maxSize ?U - 1) = length (us_top ?U) - 1"
      by (auto simp: UndoStack_wf_def)
    with True show ?thesis by (simp add: us0_def butlast_conv_take)
  next
    case False
    with wf have "length (us_top ?U) \<le> nat (us_maxSize ?U - 1)"
      by (auto simp: UndoStack_wf_def)
    with False show ?thesis by (simp add: us0_def)
  qed
  show ?thesis
    using add un l g cu cu1 tk
    by (intro exI [of _ ?t] exI [of _ s1] exI [of _ ?s2])
      (simp add: getAllTransactions_def getTotalBalance_def l1 DLL_traverseForward_id)
qed





section \<open>Heaps\<close>

lemma length_swap [simp]: "length (swap i j xs) = length xs"
  by (simp add: swap_def)

lemma nth_swap:
  "i < length xs \<Longrightarrow> j < length xs \<Longrightarrow> k < length xs \<Longrightarrow>
   swap i j xs ! k = (if k = j then xs ! i else if k = i then xs ! j else xs ! k)"
  by (simp add: swap_def nth_list_update)

lemma mset_swap_heap: "i < length xs \<Longrightarrow> j < length xs \<Longrightarrow> mset (swap i j xs) = mset xs"
  unfolding swap_def using mset_swap [of j xs i] by simp

lemma largestOf_self: "largestOf key i h = i \<Longrightarrow> heap_at key h i"
  by (auto simp: largestOf_def heap_at_def Let_def leftChild_def rightChild_def split: if_splits)

lemma largestOf_other:
  assumes "largestOf key i h \<noteq> i"
  shows "(largestOf key i h = leftChild i \<or> largestOf key i h = rightChild i) \<and>
         largestOf key i h < length h \<and> i < largestOf key i h \<and>
         key (h ! i) < key (h ! largestOf key i h) \<and>
         (leftChild i < length h \<longrightarrow> key (h ! leftChild i) \<le> key (h ! largestOf key i h)) \<and>
         (rightChild i < length h \<longrightarrow> key (h ! rightChild i) \<le> key (h ! largestOf key i h))"
  using assms
  by (auto simp: largestOf_def Let_def leftChild_def rightChild_def split: if_splits)

lemma length_heapifyDown [simp]: "length (heapifyDown key i h) = length h"
proof (induction key i h rule: heapifyDown.induct)
  case (1 key i heap)
  show ?case
    using 1 by (subst heapifyDown.simps) (auto simp: Let_def)
qed

lemma mset_heapifyDown [simp]: "mset (heapifyDown key i h) = mset h"
proof (induction key i h rule: heapifyDown.induct)
  case (1 key i heap)
  show ?case
  proof (cases "largestOf key i heap = i")
    case True
    then show ?thesis by (subst heapifyDown.simps) simp
  next
    case False
    from largestOf_other [OF False] have "largestOf key i heap < length heap"
      and "i < length heap" by auto
    with 1 False show ?thesis
      by (subst heapifyDown.simps) (simp add: Let_def mset_swap_heap)
  qed
qed


lemma heapifyDown_heap_from:
  assumes "\<forall>k. j \<le> k \<and> k < length h \<and> k \<noteq> i \<longrightarrow> heap_at key h k"
    and "j \<le> i"
    and "\<forall>p. j \<le> p \<and> p < length h \<and> (leftChild p = i \<or> rightChild p = i) \<longrightarrow>
           (leftChild i < length h \<longrightarrow> key (h ! leftChild i) \<le> key (h ! p)) \<and>
           (rightChild i < length h \<longrightarrow> key (h ! rightChild i) \<le> key (h ! p))"
  shows "heap_from key j (heapifyDown key i h)"
  using assms
proof (induction key i h rule: heapifyDown.induct)
  case (1 key i h)
  let ?L = "largestOf key i h"
  show ?case
  proof (cases "?L = i")
    case True
    then have "heapifyDown key i h = h"
      by (subst heapifyDown.simps) simp
    moreover have "heap_from key j h"
      unfolding heap_from_def using "1.prems"(1) largestOf_self [OF True] by metis
    ultimately show ?thesis by simp
  next
    case False
    note L = largestOf_other [OF False]
    let ?h' = "swap i ?L h"
    have iL: "i < length h" "?L < length h" "i < ?L" using L by auto
    have eq: "heapifyDown key i h = heapifyDown key ?L ?h'"
      by (subst heapifyDown.simps) (simp add: Let_def False)
    have nth: "?h' ! k = (if k = ?L then h ! i else if k = i then h ! ?L else h ! k)"
      if "k < length h" for k
      using nth_swap [OF iL(1) iL(2) that] by simp
    have p1: "\<forall>k. j \<le> k \<and> k < length ?h' \<and> k \<noteq> ?L \<longrightarrow> heap_at key ?h' k"
    proof (intro allI impI)
      fix k
      assume k: "j \<le> k \<and> k < length ?h' \<and> k \<noteq> ?L"
      show "heap_at key ?h' k"
      proof (cases "k = i")
        case True
        show ?thesis
          unfolding heap_at_def True using L iL
          by (auto simp: nth leftChild_def rightChild_def)
      next
        case ki: False
        with k "1.prems"(1) have hk: "heap_at key h k" by simp
        have par: "(leftChild k = i \<or> rightChild k = i) \<Longrightarrow>
            key (h ! ?L) \<le> key (h ! k)"
          using "1.prems"(3) k L by auto
        have nl: "leftChild k \<noteq> ?L" "rightChild k \<noteq> ?L"
          using L ki by (auto simp: leftChild_def rightChild_def)
        show ?thesis
          unfolding heap_at_def
          using hk par nl k ki by (auto simp: nth heap_at_def)
      qed
    qed
    have hL: "heap_at key h ?L"
      using "1.prems"(1,2) iL by simp
    have p3: "\<forall>p. j \<le> p \<and> p < length ?h' \<and> (leftChild p = ?L \<or> rightChild p = ?L) \<longrightarrow>
           (leftChild ?L < length ?h' \<longrightarrow> key (?h' ! leftChild ?L) \<le> key (?h' ! p)) \<and>
           (rightChild ?L < length ?h' \<longrightarrow> key (?h' ! rightChild ?L) \<le> key (?h' ! p))"
    proof (intro allI impI)
      fix p
      assume p: "j \<le> p \<and> p < length ?h' \<and> (leftChild p = ?L \<or> rightChild p = ?L)"
      with L have pi: "p = i" by (auto simp: leftChild_def rightChild_def)
      have c: "leftChild ?L \<noteq> i" "leftChild ?L \<noteq> ?L" "rightChild ?L \<noteq> i" "rightChild ?L \<noteq> ?L"
        using iL by (auto simp: leftChild_def rightChild_def)
      show "(leftChild ?L < length ?h' \<longrightarrow> key (?h' ! leftChild ?L) \<le> key (?h' ! p)) \<and>
           (rightChild ?L < length ?h' \<longrightarrow> key (?h' ! rightChild ?L) \<le> key (?h' ! p))"
        unfolding pi using hL c iL by (auto simp: nth heap_at_def)
    qed
    have jL: "j \<le> ?L" using "1.prems"(2) iL by simp
    show ?thesis
      unfolding eq by (rule "1.IH" [OF refl False p1 jL p3])
  qed
qed

lemma heap_from_half: "heap_from key (length h div 2) h"
  by (auto simp: heap_from_def heap_at_def leftChild_def rightChild_def)

lemma buildLoop_heap_from: "heap_from key n h \<Longrightarrow> heap_from key 0 (buildLoop key n h)"
proof (induction n arbitrary: h)
  case 0
  then show ?case by simp
next
  case (Suc n)
  have "heap_from key n (heapifyDown key n h)"
  proof (rule heapifyDown_heap_from)
    show "\<forall>k. n \<le> k \<and> k < length h \<and> k \<noteq> n \<longrightarrow> heap_at key h k"
      using Suc.prems by (auto simp: heap_from_def)
    show "n \<le> n" by simp
    show "\<forall>p. n \<le> p \<and> p < length h \<and> (leftChild p = n \<or> rightChild p = n) \<longrightarrow>
           (leftChild n < length h \<longrightarrow> key (h ! leftChild n) \<le> key (h ! p)) \<and>
           (rightChild n < length h \<longrightarrow> key (h ! rightChild n) \<le> key (h ! p))"
      by (auto simp: leftChild_def rightChild_def)
  qed
  then show ?case using Suc.IH by simp
qed

lemma length_buildLoop [simp]: "length (buildLoop key n h) = length h"
  by (induction n arbitrary: h) auto

lemma mset_buildLoop [simp]: "mset (buildLoop key n h) = mset h"
  by (induction n arbitrary: h) auto

lemma is_heap_buildHeap: "is_heap key (buildHeap key xs)"
  unfolding is_heap_def buildHeap_def by (rule buildLoop_heap_from) (rule heap_from_half)

lemma mset_buildHeap [simp]: "mset (buildHeap key xs) = mset xs"
  by (simp add: buildHeap_def)

lemma heap_root_max: "is_heap key h \<Longrightarrow> i < length h \<Longrightarrow> key (h ! i) \<le> key (h ! 0)"
proof (induction i rule: less_induct)
  case (less i)
  show ?case
  proof (cases "i = 0")
    case True
    then show ?thesis by simp
  next
    case False
    let ?p = "(i - 1) div 2"
    have p: "?p < i" "?p < length h" using False less.prems(2) by auto
    have "leftChild ?p = i \<or> rightChild ?p = i"
      using False by (auto simp: leftChild_def rightChild_def)
    moreover have "heap_at key h ?p"
      using less.prems(1) p by (simp add: is_heap_def heap_from_def)
    ultimately have "key (h ! i) \<le> key (h ! ?p)"
      using less.prems(2) by (auto simp: heap_at_def)
    also have "\<dots> \<le> key (h ! 0)"
      using less.IH [OF p(1) less.prems(1) p(2)] .
    finally show ?thesis .
  qed
qed


lemma mset_drop_root: "h \<noteq> [] \<Longrightarrow> add_mset (h ! 0) (mset (butlast (h[0 := last h]))) = mset h"
proof (cases h)
  case Nil
  assume "h \<noteq> []"
  with Nil show ?thesis by simp
next
  case (Cons x xs)
  show ?thesis
  proof (cases "xs = []")
    case True
    with Cons show ?thesis by simp
  next
    case False
    have "mset (last xs # butlast xs) = mset (butlast xs @ [last xs])" by simp
    also have "\<dots> = mset xs" by (simp only: append_butlast_last_id [OF False])
    finally have "add_mset (last xs) (mset (butlast xs)) = mset xs" by simp
    then show ?thesis using Cons False by simp
  qed
qed

lemma extractMax_Some:
  assumes "is_heap key h" and "extractMax key h = Some (x, h')"
  shows "is_heap key h' \<and> mset h = add_mset x (mset h') \<and> (\<forall>y \<in> set h. key y \<le> key x) \<and>
         length h = Suc (length h')"
proof -
  from assms(2) have ne: "h \<noteq> []" by (auto simp: extractMax_def split: if_splits)
  let ?h1 = "butlast (h[0 := last h])"
  from assms(2) ne have x: "x = h ! 0"
    and h': "h' = (if ?h1 \<noteq> [] then heapifyDown key 0 ?h1 else ?h1)"
    by (auto simp: extractMax_def Let_def)
  have len1: "length ?h1 = length h - 1" by simp
  have nth1: "?h1 ! k = (if k = 0 then last h else h ! k)" if "k < length h - 1" for k
    using that by (cases h) (auto simp: nth_butlast nth_list_update)
  have "mset h' = mset ?h1" by (simp add: h')
  then have m: "mset h = add_mset x (mset h')"
    using mset_drop_root [OF ne] by (simp add: x)
  have mx: "\<forall>y \<in> set h. key y \<le> key x"
    using heap_root_max [OF assms(1)] by (auto simp: x in_set_conv_nth)
  have hp: "is_heap key h'"
  proof (cases "?h1 = []")
    case True
    then show ?thesis by (simp add: h' is_heap_def heap_from_def)
  next
    case False
    have "heap_from key 0 (heapifyDown key 0 ?h1)"
    proof (rule heapifyDown_heap_from)
      show "\<forall>k. 0 \<le> k \<and> k < length ?h1 \<and> k \<noteq> 0 \<longrightarrow> heap_at key ?h1 k"
      proof (intro allI impI)
        fix k
        assume k: "0 \<le> k \<and> k < length ?h1 \<and> k \<noteq> 0"
        then have "k < length h" by auto
        then have "heap_at key h k"
          using assms(1) by (simp add: is_heap_def heap_from_def)
        with k show "heap_at key ?h1 k"
          by (auto simp: heap_at_def nth1 leftChild_def rightChild_def)
      qed
      show "(0::nat) \<le> 0" by simp
      show "\<forall>p. 0 \<le> p \<and> p < length ?h1 \<and> (leftChild p = 0 \<or> rightChild p = 0) \<longrightarrow>
           (leftChild 0 < length ?h1 \<longrightarrow> key (?h1 ! leftChild 0) \<le> key (?h1 ! p)) \<and>
           (rightChild 0 < length ?h1 \<longrightarrow> key (?h1 ! rightChild 0) \<le> key (?h1 ! p))"
        by (simp add: leftChild_def rightChild_def)
    qed
    with False show ?thesis by (simp add: h' is_heap_def)
  qed
  have "length h' = length ?h1" by (metis h' length_heapifyDown)
  then have "length h = Suc (length h')"
    using ne by (cases h) simp_all
  with hp m mx show ?thesis by simp
qed

lemma extractMax_None: "extractMax key h = None \<longleftrightarrow> h = []"
  by (simp add: extractMax_def Let_def)

lemma topKLoop_acc: "topKLoop key n h result = result @ topKLoop key n h []"
proof (induction n arbitrary: h result)
  case 0
  then show ?case by simp
next
  case (Suc n)
  show ?case
  proof (cases "extractMax key h")
    case None
    then show ?thesis by (simp add: extractMax_None)
  next
    case (Some p)
    obtain x h' where p: "p = (x, h')" by (cases p)
    from Some have ne: "h \<noteq> []" using extractMax_None [of key h] by auto
    show ?thesis
      using Suc [of h' "result @ [x]"] Suc [of h' "[x]"] Some ne by (simp add: p)
  qed
qed

lemma topKLoop_heap:
  "is_heap key h \<Longrightarrow>
   sorted_wrt (\<lambda>a b. key a \<ge> key b) (topKLoop key n h []) \<and>
   mset (topKLoop key n h []) \<subseteq># mset h \<and>
   length (topKLoop key n h []) = min n (length h) \<and>
   (\<forall>x \<in> set (topKLoop key n h []). \<forall>y \<in># mset h - mset (topKLoop key n h []). key y \<le> key x)"
proof (induction n arbitrary: h)
  case 0
  then show ?case by simp
next
  case (Suc n)
  show ?case
  proof (cases "extractMax key h")
    case None
    then show ?thesis by (simp add: extractMax_None)
  next
    case (Some p)
    obtain x h' where p: "p = (x, h')" by (cases p)
    from Some have ne: "h \<noteq> []" using extractMax_None [of key h] by auto
    from extractMax_Some [OF Suc.prems Some [unfolded p]]
    have hp: "is_heap key h'" and m: "mset h = add_mset x (mset h')"
      and mx: "\<forall>y \<in> set h. key y \<le> key x" and len: "length h = Suc (length h')" by auto
    let ?r = "topKLoop key n h' []"
    have eq: "topKLoop key (Suc n) h [] = x # ?r"
      using Some ne topKLoop_acc [of key n h' "[x]"] by (simp add: p)
    note IH = Suc.IH [OF hp]
    have sub: "set ?r \<subseteq> set h"
      using IH m by (metis mset_subset_eqD set_mset_mset subsetI union_single_eq_member
          insert_iff set_mset_add_mset_insert)
    have 1: "sorted_wrt (\<lambda>a b. key a \<ge> key b) (x # ?r)"
      using IH mx sub by auto
    have 2: "mset (x # ?r) \<subseteq># mset h"
      using IH by (simp add: m)
    have 3: "length (x # ?r) = min (Suc n) (length h)"
      using IH by (simp add: len)
    have 4: "\<forall>a \<in> set (x # ?r). \<forall>y \<in># mset h - mset (x # ?r). key y \<le> key a"
    proof (intro ballI)
      fix a y
      assume a: "a \<in> set (x # ?r)" and y: "y \<in># mset h - mset (x # ?r)"
      have y': "y \<in># mset h' - mset ?r" using y by (simp add: m)
      then have yh: "y \<in> set h"
        using m by (metis in_diffD set_mset_mset union_single_eq_member insert_iff
            set_mset_add_mset_insert)
      show "key y \<le> key a"
      proof (cases "a = x")
        case True
        with mx yh show ?thesis by simp
      next
        case False
        with a have "a \<in> set ?r" by simp
        with IH y' show ?thesis by blast
      qed
    qed
    show ?thesis unfolding eq using 1 2 3 4 by blast
  qed
qed

section \<open>Top-K queries\<close>

lemma chain_update_keys: "chain_update k v ch = Some ch' \<Longrightarrow> map fst ch' = map fst ch"
  by (induction ch arbitrary: ch') (auto split: if_splits)

lemma chain_search_None_keys: "chain_search k ch = None \<longleftrightarrow> k \<notin> fst ` set ch"
  by (induction ch) (auto split: if_splits)


lemma HashMap_wf_new: "HashMap_wf HashMap_new"
  by (simp add: HashMap_wf_def HashMap_new_def)

lemma HashMap_wf_insert: "HashMap_wf m \<Longrightarrow> HashMap_wf (HashMap_insert k v m)"
proof (cases "chain_update k v (m (HashMap_hash k))")
  case None
  assume wf: "HashMap_wf m"
  from None have "k \<notin> fst ` set (m (HashMap_hash k))"
    by (simp add: chain_update_None_iff chain_search_None_keys)
  with wf None show ?thesis
    by (auto simp: HashMap_wf_def HashMap_insert_def Let_def)
next
  case (Some ch')
  assume wf: "HashMap_wf m"
  from chain_update_keys [OF Some] have k: "map fst ch' = map fst (m (HashMap_hash k))" .
  then have "fst ` set ch' = fst ` set (m (HashMap_hash k))"
    by (metis set_map)
  with wf have h: "\<forall>x \<in> fst ` set ch'. HashMap_hash x = HashMap_hash k"
    by (simp add: HashMap_wf_def)
  have d: "distinct (map fst ch')"
    using wf k by (simp add: HashMap_wf_def)
  show ?thesis
    unfolding HashMap_wf_def HashMap_insert_def Let_def Some
    using wf h d by (simp add: HashMap_wf_def)
qed



lemma length_buildHeap [simp]: "length (buildHeap key xs) = length xs"
  by (simp add: buildHeap_def)


lemma DLL_filterByType_filter: "DLL_filterByType ty l = filter (\<lambda>t. txn_type t = ty) l"
  by (induction l) auto

lemma DLL_deleteById_distinct:
  "distinct (map txn_id l) \<Longrightarrow> t \<in> set (snd (DLL_deleteById i l)) \<Longrightarrow> txn_id t \<noteq> i"
  by (induction l) (auto simp: image_iff split: prod.splits if_splits)

lemma DLL_deleteById_subset: "set (snd (DLL_deleteById i l)) \<subseteq> set l"
  by (induction l) (auto split: prod.splits)

lemma HashMap_wf_updateExpenseTracking:
  "HashMap_wf (expenseMap s) \<Longrightarrow> HashMap_wf (expenseMap (updateExpenseTracking t isAdd s))"
  by (simp add: updateExpenseTracking_expenseMap HashMap_wf_insert)

lemma HashMap_wf_deleteTransaction:
  "deleteTransaction fmt i s = Some (r, s') \<Longrightarrow> HashMap_wf (expenseMap s) \<Longrightarrow>
   HashMap_wf (expenseMap s')"
  by (auto simp: deleteTransaction_def Let_def HashMap_wf_insert updateExpenseTracking_expenseMap
      split: option.splits)

lemma HashMap_wf_loadTransaction:
  "HashMap_wf (expenseMap s) \<Longrightarrow> HashMap_wf (expenseMap (loadTransaction i ty amt cat desc dt s))"
  by (simp add: loadTransaction_def Let_def HashMap_wf_insert updateExpenseTracking_expenseMap)

lemma HashMap_wf_addTransaction:
  "addTransaction fmt now ty amt cat desc dt s = Some (t, s') \<Longrightarrow> HashMap_wf (expenseMap s) \<Longrightarrow>
   HashMap_wf (expenseMap s')"
  by (auto simp: addTransaction_def Let_def HashMap_wf_insert updateExpenseTracking_expenseMap
      split: option.splits if_splits)



text \<open>
  Claim C6. \<^verbatim>\<open>getTopExpenses(k)\<close> returns nothing for \<open>k \<le> 0\<close>; for \<open>k\<close> above the
  number of expense transactions in the ledger it returns all of them; its result is
  always in descending order of amount and drawn from the expenses currently in the ledger
  (as many as asked for if there are that many, none of them smaller than an expense left
  out), so that (ids being unique) a transaction just deleted is not returned.
\<close>

theorem getTopExpenses_correct:
  "(k \<le> 0 \<longrightarrow> fst (getTopExpenses k s) = []) \<and>
   (int (length (filter (\<lambda>t. txn_type t = ''expense'') (getAllTransactions s))) < k \<longrightarrow>
      mset (fst (getTopExpenses k s)) =
        mset (filter (\<lambda>t. txn_type t = ''expense'') (getAllTransactions s))) \<and>
   sorted_wrt (\<lambda>a b. amount a \<ge> amount b) (fst (getTopExpenses k s)) \<and>
   mset (fst (getTopExpenses k s)) \<subseteq>#
      mset (filter (\<lambda>t. txn_type t = ''expense'') (getAllTransactions s)) \<and>
   length (fst (getTopExpenses k s)) =
      min (nat k) (length (filter (\<lambda>t. txn_type t = ''expense'') (getAllTransactions s))) \<and>
   (\<forall>x \<in> set (fst (getTopExpenses k s)).
      \<forall>y \<in># mset (filter (\<lambda>t. txn_type t = ''expense'') (getAllTransactions s)) -
             mset (fst (getTopExpenses k s)). amount y \<le> amount x) \<and>
   (\<forall>i fmt s'. deleteTransaction fmt i s = Some (True, s') \<and>
        distinct (map txn_id (getAllTransactions s)) \<longrightarrow>
        (\<forall>t \<in> set (fst (getTopExpenses k s')). txn_id t \<noteq> i))"
proof -
  let ?ex = "\<lambda>s. filter (\<lambda>t. txn_type t = ''expense'') (getAllTransactions s)"
  have r: "fst (getTopExpenses k s) = topKLoop amount (nat k) (buildHeap amount (?ex s)) []" for k s
    by (simp add: getTopExpenses_def Let_def MaxHeap_getTopK_def MaxHeap_buildHeap_def
        getTopK_def DLL_filterByType_filter getAllTransactions_def DLL_traverseForward_id)
  note H = topKLoop_heap [OF is_heap_buildHeap, of amount "nat k" "?ex s"]
  have 1: "k \<le> 0 \<longrightarrow> fst (getTopExpenses k s) = []"
    by (simp add: r)
  have sub: "mset (fst (getTopExpenses k s)) \<subseteq># mset (?ex s)" for k s
    using topKLoop_heap [OF is_heap_buildHeap, of amount "nat k" "?ex s"] by (simp add: r)
  have 2: "int (length (?ex s)) < k \<longrightarrow> mset (fst (getTopExpenses k s)) = mset (?ex s)"
  proof
    assume "int (length (?ex s)) < k"
    then have "length (fst (getTopExpenses k s)) = length (?ex s)"
      using H by (simp add: r)
    then have "size (mset (fst (getTopExpenses k s))) = size (mset (?ex s))"
      by (simp only: size_mset)
    with sub [of k s] show "mset (fst (getTopExpenses k s)) = mset (?ex s)"
      by (metis mset_subset_size subset_mset.less_le order_less_irrefl)
  qed
  have 3: "sorted_wrt (\<lambda>a b. amount a \<ge> amount b) (fst (getTopExpenses k s))"
    using H by (simp add: r)
  have 4: "length (fst (getTopExpenses k s)) = min (nat k) (length (?ex s))"
    using H by (simp add: r)
  have 6: "\<forall>x \<in> set (fst (getTopExpenses k s)).
      \<forall>y \<in># mset (?ex s) - mset (fst (getTopExpenses k s)). amount y \<le> amount x"
    using H unfolding r by (simp only: mset_buildHeap) blast
  have 5: "\<forall>i fmt s'. deleteTransaction fmt i s = Some (True, s') \<and>
        distinct (map txn_id (getAllTransactions s)) \<longrightarrow>
        (\<forall>t \<in> set (fst (getTopExpenses k s')). txn_id t \<noteq> i)"
  proof (intro allI impI ballI)
    fix i fmt s' t
    assume a: "deleteTransaction fmt i s = Some (True, s') \<and>
        distinct (map txn_id (getAllTransactions s))"
      and t: "t \<in> set (fst (getTopExpenses k s'))"
    from a have l: "transactionList s' = snd (DLL_deleteById i (transactionList s))"
      by (auto simp: deleteTransaction_def Let_def updateExpenseTracking_frame
          split: option.splits)
    from t sub [of k s'] have "t \<in> set (?ex s')"
      by (metis mset_subset_eqD set_mset_mset)
    then have "t \<in> set (snd (DLL_deleteById i (transactionList s)))"
      by (simp add: getAllTransactions_def DLL_traverseForward_id l)
    with a show "txn_id t \<noteq> i"
      using DLL_deleteById_distinct [of "transactionList s" t i]
      by (simp add: getAllTransactions_def DLL_traverseForward_id)
  qed
  from 1 2 3 sub [of k s] 4 6 5 show ?thesis by blast
qed


theorem getTopExpenses_correct_witness:
  "fst (getTopExpenses 0
     (loadTransaction ''t2'' ''expense'' 50 ''Food'' ''Dinner'' ''2024-01-10''
       (loadTransaction ''t1'' ''expense'' 10 ''Food'' ''Lunch'' ''2024-01-05'' FinanceEngine_new))) = [] \<and>
   mset (fst (getTopExpenses 5
     (loadTransaction ''t2'' ''expense'' 50 ''Food'' ''Dinner'' ''2024-01-10''
       (loadTransaction ''t1'' ''expense'' 10 ''Food'' ''Lunch'' ''2024-01-05'' FinanceEngine_new)))) =
     {#\<lparr>txn_id = ''t1'', txn_type = ''expense'', amount = 10, category = ''Food'',
         description = ''Lunch'', date = ''2024-01-05''\<rparr>,
       \<lparr>txn_id = ''t2'', txn_type = ''expense'', amount = 50, category = ''Food'',
         description = ''Dinner'', date = ''2024-01-10''\<rparr>#} \<and>
   (\<exists>s'. deleteTransaction (\<lambda>x. ''10'') ''t1''
       (loadTransaction ''t2'' ''expense'' 50 ''Food'' ''Dinner'' ''2024-01-10''
         (loadTransaction ''t1'' ''expense'' 10 ''Food'' ''Lunch'' ''2024-01-05'' FinanceEngine_new))
       = Some (True, s') \<and>
      ''t1'' \<notin> txn_id ` set (fst (getTopExpenses 5 s')))"
proof -
  let ?T1 = "\<lparr>txn_id = ''t1'', txn_type = ''expense'', amount = 10, category = ''Food'',
             description = ''Lunch'', date = ''2024-01-05''\<rparr>"
  let ?T2 = "\<lparr>txn_id = ''t2'', txn_type = ''expense'', amount = 50, category = ''Food'',
             description = ''Dinner'', date = ''2024-01-10''\<rparr>"
  let ?S = "loadTransaction ''t2'' ''expense'' 50 ''Food'' ''Dinner'' ''2024-01-10''
       (loadTransaction ''t1'' ''expense'' 10 ''Food'' ''Lunch'' ''2024-01-05'' FinanceEngine_new)"
  have all: "getAllTransactions ?S = [?T1, ?T2]"
    by (simp add: getAllTransactions_def DLL_traverseForward_id loadTransaction_fields
        FinanceEngine_new_fields)
  have wfu: "UndoStack_wf (undoStack ?S)"
    by (simp add: loadTransaction_fields FinanceEngine_new_fields UndoStack_wf_new)
  have f: "BST_findById ''t1'' (transactionBST ?S) = Some ?T1"
    by (simp add: loadTransaction_fields FinanceEngine_new_fields BST_findById_def BST_insert_def)
  from deleteTransaction_result [OF wfu f, of "\<lambda>x. ''10''"]
  obtain s' where d: "deleteTransaction (\<lambda>x. ''10'') ''t1'' ?S = Some (True, s')"
    by blast
  have dis: "distinct (map txn_id (getAllTransactions ?S))"
    by (simp add: all)
  note C = getTopExpenses_correct [of _ ?S]
  have 1: "fst (getTopExpenses 0 ?S) = []"
    using C [of 0] by simp
  have 2: "mset (fst (getTopExpenses 5 ?S)) = {#?T1, ?T2#}"
    using C [of 5] by (simp add: all)
  have "\<forall>t \<in> set (fst (getTopExpenses 5 s')). txn_id t \<noteq> ''t1''"
    using conjunct2 [OF conjunct2 [OF conjunct2 [OF conjunct2 [OF conjunct2
      [OF conjunct2 [OF C [of 5]]]]]]] d dis
    by (elim allE [of _ "''t1''"] allE [of _ "\<lambda>x. ''10''"] allE [of _ s']) simp
  then have 3: "''t1'' \<notin> txn_id ` set (fst (getTopExpenses 5 s'))"
    by auto
  from 1 2 3 d show ?thesis by blast
qed


section \<open>The date index\<close>

lemma BST_inorderHelper_inorder: "BST_inorderHelper b res = res @ inorder b"
  by (induction b arbitrary: res) auto

lemma BST_inorderTraversal_inorder: "BST_inorderTraversal b = inorder b"
  by (simp add: BST_inorderTraversal_def BST_inorderHelper_inorder)

lemma inorder_dates: "bst_ok b \<Longrightarrow> t \<in> set (inorder b) \<Longrightarrow> date t \<in> node_dates b"
  by (induction b) auto

lemma filter_keep:
  "\<forall>x \<in> set xs. Q (f x) \<Longrightarrow> (\<And>d. Q d \<Longrightarrow> P d) \<Longrightarrow> filter (\<lambda>x. P (f x)) xs = xs"
  by (induction xs) auto

lemma filter_drop:
  "\<forall>x \<in> set xs. Q (f x) \<Longrightarrow> (\<And>d. Q d \<Longrightarrow> \<not> P d) \<Longrightarrow> filter (\<lambda>x. P (f x)) xs = []"
  by (induction xs) auto

lemma bst_ok_node:
  assumes "bst_ok (BSTNode nd ts l r)"
  shows "bst_ok l" and "bst_ok r"
    and "\<forall>x \<in> set (inorder l). date x < nd"
    and "\<forall>x \<in> set (inorder r). nd < date x"
    and "\<forall>x \<in> set ts. date x = nd"
proof -
  from assms show "bst_ok l" and "bst_ok r" and "\<forall>x \<in> set ts. date x = nd" by simp_all
  from assms have "\<forall>d \<in> node_dates l. d < nd" and l: "bst_ok l" by simp_all
  then show "\<forall>x \<in> set (inorder l). date x < nd"
    using inorder_dates [OF l] by blast
  from assms have "\<forall>d \<in> node_dates r. nd < d" and r: "bst_ok r" by simp_all
  then show "\<forall>x \<in> set (inorder r). nd < date x"
    using inorder_dates [OF r] by blast
qed

lemma BST_rangeQueryHelper_filter:
  "bst_ok b \<Longrightarrow>
   BST_rangeQueryHelper b lo hi res = res @ filter (\<lambda>t. lo \<le> date t \<and> date t \<le> hi) (inorder b)"
proof (induction b arbitrary: res)
  case Null
  then show ?case by simp
next
  case (BSTNode nd ts l r)
  let ?P = "\<lambda>t. lo \<le> date t \<and> date t \<le> hi"
  note ok = bst_ok_node [OF BSTNode.prems]
  have L: "(if nd > lo then BST_rangeQueryHelper l lo hi res else res) = res @ filter ?P (inorder l)"
  proof (cases "nd > lo")
    case True
    then show ?thesis by (simp add: BSTNode.IH(1) [OF ok(1)])
  next
    case False
    have "filter (\<lambda>x. lo \<le> date x \<and> date x \<le> hi) (inorder l) = []"
      using ok(3) by (rule filter_drop) (use False in auto)
    with False show ?thesis by simp
  qed
  have M: "filter ?P ts = (if nd \<ge> lo \<and> nd \<le> hi then ts else [])"
  proof (cases "nd \<ge> lo \<and> nd \<le> hi")
    case True
    have "filter (\<lambda>x. lo \<le> date x \<and> date x \<le> hi) ts = ts"
      using ok(5) by (rule filter_keep) (use True in simp)
    with True show ?thesis by simp
  next
    case False
    have "filter (\<lambda>x. lo \<le> date x \<and> date x \<le> hi) ts = []"
      using ok(5) by (rule filter_drop) (use False in simp)
    with False show ?thesis by auto
  qed
  have R: "(if nd < hi then BST_rangeQueryHelper r lo hi acc else acc) = acc @ filter ?P (inorder r)"
    for acc
  proof (cases "nd < hi")
    case True
    then show ?thesis by (simp add: BSTNode.IH(2) [OF ok(2)])
  next
    case False
    have "filter (\<lambda>x. lo \<le> date x \<and> date x \<le> hi) (inorder r) = []"
      using ok(4) by (rule filter_drop) (use False in auto)
    with False show ?thesis by simp
  qed
  show ?case
    by (simp only: BST_rangeQueryHelper.simps Let_def L R M inorder.simps filter_append)
      (simp add: M)
qed

lemma node_dates_insert:
  "node_dates (BST_insertHelper b d t) = insert d (node_dates b)"
  by (induction b) auto

lemma bst_ok_insert: "bst_ok b \<Longrightarrow> bst_ok (BST_insertHelper b (date t) t)"
  by (induction b) (auto simp: node_dates_insert)

lemma inorder_insert:
  "bst_ok b \<Longrightarrow>
   inorder (BST_insertHelper b (date t) t) =
     filter (\<lambda>x. date x \<le> date t) (inorder b) @ [t] @ filter (\<lambda>x. date t < date x) (inorder b)"
proof (induction b)
  case Null
  then show ?case by simp
next
  case (BSTNode nd ts l r)
  note ok = bst_ok_node [OF BSTNode.prems]
  consider (lt) "date t < nd" | (gt) "nd < date t" | (eq) "date t = nd"
    using less_linear by blast
  then show ?case
  proof cases
    case lt
    have "filter (\<lambda>x. date x \<le> date t) ts = []"
      using ok(5) by (rule filter_drop) (use lt in simp)
    moreover have "filter (\<lambda>x. date t < date x) ts = ts"
      using ok(5) by (rule filter_keep) (use lt in simp)
    moreover have "filter (\<lambda>x. date x \<le> date t) (inorder r) = []"
      using ok(4) by (rule filter_drop) (use lt in auto)
    moreover have "filter (\<lambda>x. date t < date x) (inorder r) = inorder r"
      using ok(4) by (rule filter_keep) (use lt in auto)
    ultimately show ?thesis
      using lt BSTNode.IH(1) [OF ok(1)] by simp
  next
    case gt
    have "filter (\<lambda>x. date x \<le> date t) ts = ts"
      using ok(5) by (rule filter_keep) (use gt in simp)
    moreover have "filter (\<lambda>x. date t < date x) ts = []"
      using ok(5) by (rule filter_drop) (use gt in simp)
    moreover have "filter (\<lambda>x. date x \<le> date t) (inorder l) = inorder l"
      using ok(3) by (rule filter_keep) (use gt in auto)
    moreover have "filter (\<lambda>x. date t < date x) (inorder l) = []"
      using ok(3) by (rule filter_drop) (use gt in auto)
    ultimately show ?thesis
      using gt BSTNode.IH(2) [OF ok(2)] by simp
  next
    case eq
    have "filter (\<lambda>x. date x \<le> date t) ts = ts"
      using ok(5) by (rule filter_keep) (use eq in simp)
    moreover have "filter (\<lambda>x. date t < date x) ts = []"
      using ok(5) by (rule filter_drop) (use eq in simp)
    moreover have "filter (\<lambda>x. date x \<le> date t) (inorder l) = inorder l"
      using ok(3) by (rule filter_keep) (use eq in auto)
    moreover have "filter (\<lambda>x. date t < date x) (inorder l) = []"
      using ok(3) by (rule filter_drop) (use eq in auto)
    moreover have "filter (\<lambda>x. date x \<le> date t) (inorder r) = []"
      using ok(4) by (rule filter_drop) (use eq in auto)
    moreover have "filter (\<lambda>x. date t < date x) (inorder r) = inorder r"
      using ok(4) by (rule filter_keep) (use eq in auto)
    ultimately show ?thesis
      using eq by simp
  qed
qed


lemma sorted_inorder: "bst_ok b \<Longrightarrow> sorted (map date (inorder b))"
proof (induction b)
  case Null
  then show ?case by simp
next
  case (BSTNode nd ts l r)
  note ok = bst_ok_node [OF BSTNode.prems]
  have "sorted (map date ts)"
    using ok(5) by (induction ts) auto
  with BSTNode.IH(1) [OF ok(1)] BSTNode.IH(2) [OF ok(2)] ok(3,4,5) show ?case
    by (fastforce simp: sorted_append)
qed

lemma sort_key_snoc:
  fixes f :: "'a \<Rightarrow> 'k::linorder"
  shows "sort_key f (xs @ [x]) =
    filter (\<lambda>y. f y \<le> f x) (sort_key f xs) @ [x] @ filter (\<lambda>y. f x < f y) (sort_key f xs)"
proof (rule properties_for_sort_key)
  let ?S = "sort_key f xs"
  let ?ys = "filter (\<lambda>y. f y \<le> f x) ?S @ [x] @ filter (\<lambda>y. f x < f y) ?S"
  have "mset (filter (\<lambda>y. f y \<le> f x) ?S) + mset (filter (\<lambda>y. \<not> f y \<le> f x) ?S) = mset ?S"
    by (simp only: mset_filter multiset_partition [symmetric])
  moreover have "(\<lambda>y. \<not> f y \<le> f x) = (\<lambda>y. f x < f y)" by (auto simp: not_le)
  ultimately show "mset ?ys = mset (xs @ [x])" by simp
  show "sorted (map f ?ys)"
    by (auto simp: sorted_append sorted_filter intro: less_imp_le order_trans)
  fix k
  assume "k \<in> set ?ys"
  have S: "filter (\<lambda>y. f k = f y) ?S = filter (\<lambda>y. f k = f y) xs"
    using sort_key_stable [of f "f k" xs] by (simp add: eq_commute)
  consider (lt) "f k < f x" | (eq) "f k = f x" | (gt) "f x < f k"
    using less_linear by blast
  then show "filter (\<lambda>y. f k = f y) ?ys = filter (\<lambda>y. f k = f y) (xs @ [x])"
  proof cases
    case lt
    have "filter (\<lambda>y. f k = f y) (filter (\<lambda>y. f y \<le> f x) ?S) = filter (\<lambda>y. f k = f y) ?S"
      using lt by (auto intro: filter_cong)
    moreover have "filter (\<lambda>y. f k = f y) (filter (\<lambda>y. f x < f y) ?S) = []"
      using lt by (auto simp: filter_empty_conv)
    moreover have "f k \<noteq> f x" using lt by simp
    ultimately show ?thesis using S by simp
  next
    case eq
    have "filter (\<lambda>y. f k = f y) (filter (\<lambda>y. f y \<le> f x) ?S) = filter (\<lambda>y. f k = f y) ?S"
      using eq by (auto intro: filter_cong)
    moreover have "filter (\<lambda>y. f k = f y) (filter (\<lambda>y. f x < f y) ?S) = []"
      using eq by (auto simp: filter_empty_conv)
    ultimately show ?thesis using eq S by simp
  next
    case gt
    have "filter (\<lambda>y. f k = f y) (filter (\<lambda>y. f y \<le> f x) ?S) = []"
      using gt by (auto simp: filter_empty_conv)
    moreover have "filter (\<lambda>y. f k = f y) (filter (\<lambda>y. f x < f y) ?S) = filter (\<lambda>y. f k = f y) ?S"
      using gt by (auto intro: filter_cong)
    moreover have "f k \<noteq> f x" using gt by simp
    ultimately show ?thesis using S by simp
  qed
qed


lemma eraseFirst_None: "eraseFirst i ts = None \<longleftrightarrow> i \<notin> txn_id ` set ts"
  by (induction ts) auto

lemma filter_id_absent: "i \<notin> txn_id ` set ts \<Longrightarrow> filter (\<lambda>t. txn_id t \<noteq> i) ts = ts"
  by (induction ts) auto

lemma eraseFirst_Some:
  "eraseFirst i ts = Some ts' \<Longrightarrow> distinct (map txn_id ts) \<Longrightarrow>
   ts' = filter (\<lambda>t. txn_id t \<noteq> i) ts"
proof (induction ts arbitrary: ts')
  case Nil
  then show ?case by simp
next
  case (Cons t ts)
  show ?case
  proof (cases "txn_id t = i")
    case True
    with Cons.prems have "ts' = ts" and "i \<notin> txn_id ` set ts" by auto
    with True show ?thesis by (simp add: filter_id_absent)
  next
    case False
    with Cons.prems obtain r where r: "eraseFirst i ts = Some r" and ts': "ts' = t # r" by auto
    from Cons.IH [OF r] Cons.prems(2) have "r = filter (\<lambda>t. txn_id t \<noteq> i) ts" by simp
    with False ts' show ?thesis by simp
  qed
qed

lemma eraseFirst_subset: "eraseFirst i ts = Some ts' \<Longrightarrow> set ts' \<subseteq> set ts"
  by (induction ts arbitrary: ts') (auto split: if_splits)

lemma BST_delete_node:
  "BST_deleteTransactionHelper (BSTNode nd ts l r) i =
     (case eraseFirst i ts of
        Some ts' \<Rightarrow> (True, BSTNode nd ts' l r)
      | None \<Rightarrow>
          if fst (BST_deleteTransactionHelper l i)
          then (True, BSTNode nd ts (snd (BST_deleteTransactionHelper l i)) r)
          else (fst (BST_deleteTransactionHelper r i),
                BSTNode nd ts (snd (BST_deleteTransactionHelper l i))
                  (snd (BST_deleteTransactionHelper r i))))"
  by (simp add: case_prod_beta Let_def split: option.splits)

lemma BST_delete_found:
  "fst (BST_deleteTransactionHelper b i) = (i \<in> txn_id ` set (inorder b))"
proof (induction b)
  case Null
  then show ?case by simp
next
  case (BSTNode nd ts l r)
  show ?case
  proof (cases "eraseFirst i ts")
    case None
    then have "i \<notin> txn_id ` set ts" by (simp add: eraseFirst_None)
    with None BSTNode.IH show ?thesis
      by (auto simp: image_Un BST_delete_node simp del: BST_deleteTransactionHelper.simps(2))
  next
    case (Some ts')
    then have "i \<in> txn_id ` set ts"
      using eraseFirst_None [of i ts] by auto
    with Some show ?thesis
      by (auto simp: image_Un BST_delete_node simp del: BST_deleteTransactionHelper.simps(2))
  qed
qed

lemma inorder_delete:
  "distinct (map txn_id (inorder b)) \<Longrightarrow>
   inorder (snd (BST_deleteTransactionHelper b i)) = filter (\<lambda>t. txn_id t \<noteq> i) (inorder b)"
proof (induction b)
  case Null
  then show ?case by simp
next
  case (BSTNode nd ts l r)
  from BSTNode.prems have dl: "distinct (map txn_id (inorder l))"
    and dt: "distinct (map txn_id ts)" and dr: "distinct (map txn_id (inorder r))"
    and disj: "txn_id ` set (inorder l) \<inter> txn_id ` set ts = {}"
      "txn_id ` set (inorder l) \<inter> txn_id ` set (inorder r) = {}"
      "txn_id ` set ts \<inter> txn_id ` set (inorder r) = {}"
    by auto
  note IHl = BSTNode.IH(1) [OF dl] and IHr = BSTNode.IH(2) [OF dr]
  show ?case
  proof (cases "eraseFirst i ts")
    case (Some ts')
    then have "i \<in> txn_id ` set ts"
      using eraseFirst_None [of i ts] by auto
    with disj have "i \<notin> txn_id ` set (inorder l)" "i \<notin> txn_id ` set (inorder r)" by auto
    with Some eraseFirst_Some [OF Some dt] show ?thesis
      by (simp add: filter_id_absent BST_delete_node del: BST_deleteTransactionHelper.simps(2))
  next
    case None
    then have nt: "i \<notin> txn_id ` set ts" by (simp add: eraseFirst_None)
    show ?thesis
    proof (cases "fst (BST_deleteTransactionHelper l i)")
      case True
      then have "i \<in> txn_id ` set (inorder l)" by (simp add: BST_delete_found)
      with disj have "i \<notin> txn_id ` set (inorder r)" by auto
      with None True nt IHl show ?thesis
        by (simp add: filter_id_absent BST_delete_node del: BST_deleteTransactionHelper.simps(2))
    next
      case False
      with None nt IHl IHr show ?thesis
        by (simp add: filter_id_absent BST_delete_node del: BST_deleteTransactionHelper.simps(2))
    qed
  qed
qed

lemma node_dates_delete: "node_dates (snd (BST_deleteTransactionHelper b i)) = node_dates b"
  by (induction b)
    (auto simp: BST_delete_node simp del: BST_deleteTransactionHelper.simps(2) split: option.splits)

lemma bst_ok_delete: "bst_ok b \<Longrightarrow> bst_ok (snd (BST_deleteTransactionHelper b i))"
proof (induction b)
  case Null
  then show ?case by simp
next
  case (BSTNode nd ts l r)
  have l: "bst_ok (snd (BST_deleteTransactionHelper l i))"
    and r: "bst_ok (snd (BST_deleteTransactionHelper r i))"
    using BSTNode by simp_all
  show ?case
  proof (cases "eraseFirst i ts")
    case None
    with BSTNode.prems l r show ?thesis
      by (simp add: BST_delete_node node_dates_delete del: BST_deleteTransactionHelper.simps(2))
  next
    case (Some ts')
    with BSTNode.prems eraseFirst_subset [OF Some] show ?thesis
      by (auto simp: BST_delete_node simp del: BST_deleteTransactionHelper.simps(2))
  qed
qed

lemma distinct_ids_sort_key:
  "distinct (map txn_id (sort_key date ts)) = distinct (map txn_id ts)"
proof -
  have "mset (map txn_id (sort_key date ts)) = mset (map txn_id ts)" by simp
  then show ?thesis by (rule mset_eq_imp_distinct_iff)
qed

lemma arrival_inv: "arrival b ts \<Longrightarrow> bst_ok b \<and> inorder b = sort_key date ts"
proof (induction rule: arrival.induct)
  case empty
  then show ?case by simp
next
  case (inserted b ts t)
  then show ?case
    by (simp add: BST_insert_def bst_ok_insert inorder_insert sort_key_snoc)
next
  case (deleted b ts i)
  then have "distinct (map txn_id (inorder b))"
    by (simp add: distinct_ids_sort_key)
  with deleted show ?case
    by (simp add: BST_deleteById_def bst_ok_delete inorder_delete filter_sort)
qed

lemma ledger_indexed_new: "ledger_indexed FinanceEngine_new []"
  by (simp add: ledger_indexed_def FinanceEngine_new_fields arrival.empty)

lemma ledger_indexed_loadTransaction:
  assumes "ledger_indexed s ts" and "i \<notin> txn_id ` set ts"
  shows "ledger_indexed (loadTransaction i ty amt cat desc dt s)
           (ts @ [\<lparr>txn_id = i, txn_type = ty, amount = amt, category = cat,
                    description = desc, date = dt\<rparr>])"
  using assms
  by (simp add: ledger_indexed_def loadTransaction_fields arrival.inserted)

lemma ledger_indexed_addTransaction:
  assumes "ledger_indexed s ts" and "generateId now s \<notin> txn_id ` set ts"
    and "addTransaction fmt now ty amt cat desc dt s = Some (t, s')"
  shows "ledger_indexed s' (ts @ [t])"
proof -
  from assms(3) have "transactionList s' = t # transactionList s"
    and "transactionBST s' = BST_insert t (transactionBST s)"
    and "txn_id t = generateId now s"
    by (auto simp: addTransaction_def Let_def updateExpenseTracking_frame DLL_addFront_def
        split: option.splits if_splits)
  with assms(1,2) show ?thesis
    by (simp add: ledger_indexed_def arrival.inserted)
qed

lemma DLL_deleteById_filter:
  "distinct (map txn_id l) \<Longrightarrow> snd (DLL_deleteById i l) = filter (\<lambda>t. txn_id t \<noteq> i) l"
  by (induction l) (auto simp: filter_id_absent split: prod.splits)

lemma mset_filter_cong_mset: "mset xs = mset ys \<Longrightarrow> mset (filter P xs) = mset (filter P ys)"
  by (simp only: mset_filter)

lemma findInBucket_None: "findInBucket i ts = None \<longleftrightarrow> i \<notin> txn_id ` set ts"
  by (induction ts) auto

lemma BST_findHelper_None: "BST_findHelper b i = None \<longleftrightarrow> i \<notin> txn_id ` set (inorder b)"
proof (induction b)
  case Null
  then show ?case by simp
next
  case (BSTNode nd ts l r)
  show ?case
  proof (cases "findInBucket i ts")
    case None
    with BSTNode show ?thesis
      using findInBucket_None [of i ts] by (auto simp: image_Un split: option.splits)
  next
    case (Some t)
    then have "i \<in> txn_id ` set ts"
      using findInBucket_None [of i ts] by auto
    with Some show ?thesis by (auto simp: image_Un)
  qed
qed

lemma ledger_indexed_deleteTransaction:
  assumes "ledger_indexed s ts" and "deleteTransaction fmt i s = Some (r, s')"
  shows "ledger_indexed s' (filter (\<lambda>t. txn_id t \<noteq> i) ts)"
proof -
  from assms(1) have ar: "arrival (transactionBST s) ts"
    and ms: "mset ts = mset (transactionList s)" and di: "distinct (map txn_id ts)"
    by (simp_all add: ledger_indexed_def)
  from arrival_inv [OF ar] have io: "inorder (transactionBST s) = sort_key date ts" by simp
  have dl: "distinct (map txn_id (transactionList s))"
    using di ms by (metis mset_eq_imp_distinct_iff mset_map)
  show ?thesis
  proof (cases "BST_findById i (transactionBST s)")
    case None
    with assms(2) have s': "s' = s" by (simp add: deleteTransaction_def)
    from None have "i \<notin> txn_id ` set ts"
      by (simp add: BST_findById_def BST_findHelper_None io)
    then have "filter (\<lambda>t. txn_id t \<noteq> i) ts = ts" by (rule filter_id_absent)
    with assms(1) s' show ?thesis by simp
  next
    case (Some t)
    with assms(2) have l: "transactionList s' = snd (DLL_deleteById i (transactionList s))"
      and b: "transactionBST s' = snd (BST_deleteById i (transactionBST s))"
      by (auto simp: deleteTransaction_def Let_def updateExpenseTracking_frame
          split: option.splits)
    have "mset (filter (\<lambda>t. txn_id t \<noteq> i) ts) = mset (transactionList s')"
      using ms by (simp only: l DLL_deleteById_filter [OF dl] mset_filter)
    with di show ?thesis
      by (simp add: ledger_indexed_def b arrival.deleted [OF ar di] distinct_map_filter)
  qed
qed

lemma ledger_indexed_clearAll: "ledger_indexed (clearAll s) []"
  by (simp add: ledger_indexed_def clearAll_def BST_clear_def DLL_clear_def arrival.empty)

text \<open>
  Claim C5. Let the date index have been built by insertions and deletions, \<open>ts\<close>
  being its transactions in insertion order, and let it hold the same transactions as the
  ledger. Then for every start and end date \<^verbatim>\<open>getTransactionsInRange\<close> returns the
  transactions with \<open>start \<le> date \<le> end\<close> of the stable sort of \<open>ts\<close> by date: these
  are exactly the transactions of \<^verbatim>\<open>getAllTransactions\<close> in the range, in ascending date
  order, and in insertion order within a date.
\<close>

theorem getTransactionsInRange_correct:
  assumes "arrival (transactionBST s) ts" and "mset ts = mset (getAllTransactions s)"
  shows "getTransactionsInRange lo hi s =
           filter (\<lambda>t. lo \<le> date t \<and> date t \<le> hi) (sort_key date ts) \<and>
         mset (getTransactionsInRange lo hi s) =
           mset (filter (\<lambda>t. lo \<le> date t \<and> date t \<le> hi) (getAllTransactions s)) \<and>
         sorted (map date (getTransactionsInRange lo hi s))"
proof -
  from arrival_inv [OF assms(1)] have ok: "bst_ok (transactionBST s)"
    and io: "inorder (transactionBST s) = sort_key date ts" by simp_all
  have r: "getTransactionsInRange lo hi s =
      filter (\<lambda>t. lo \<le> date t \<and> date t \<le> hi) (sort_key date ts)"
    by (simp add: getTransactionsInRange_def BST_rangeQuery_def
        BST_rangeQueryHelper_filter [OF ok] io)
  have "mset (filter (\<lambda>t. lo \<le> date t \<and> date t \<le> hi) (sort_key date ts)) =
      mset (filter (\<lambda>t. lo \<le> date t \<and> date t \<le> hi) (getAllTransactions s))"
    using assms(2) by (simp only: mset_filter mset_sort)
  moreover have "sorted (map date (filter (\<lambda>t. lo \<le> date t \<and> date t \<le> hi) (sort_key date ts)))"
    by (simp add: sorted_filter)
  ultimately show ?thesis by (simp only: r)
qed


theorem getTransactionsInRange_correct_witness:
  "getTransactionsInRange ''2024-01-10'' ''2024-01-20''
     (loadTransaction ''t3'' ''expense'' 30 ''Food'' ''c'' ''2024-01-25''
       (loadTransaction ''t2'' ''income'' 20 ''Salary'' ''b'' ''2024-01-15''
         (loadTransaction ''t1'' ''expense'' 10 ''Food'' ''a'' ''2024-01-05'' FinanceEngine_new))) =
     [\<lparr>txn_id = ''t2'', txn_type = ''income'', amount = 20, category = ''Salary'',
       description = ''b'', date = ''2024-01-15''\<rparr>]"
proof -
  let ?T1 = "\<lparr>txn_id = ''t1'', txn_type = ''expense'', amount = 10, category = ''Food'',
              description = ''a'', date = ''2024-01-05''\<rparr>"
  let ?T2 = "\<lparr>txn_id = ''t2'', txn_type = ''income'', amount = 20, category = ''Salary'',
              description = ''b'', date = ''2024-01-15''\<rparr>"
  let ?T3 = "\<lparr>txn_id = ''t3'', txn_type = ''expense'', amount = 30, category = ''Food'',
              description = ''c'', date = ''2024-01-25''\<rparr>"
  let ?S = "loadTransaction ''t3'' ''expense'' 30 ''Food'' ''c'' ''2024-01-25''
       (loadTransaction ''t2'' ''income'' 20 ''Salary'' ''b'' ''2024-01-15''
         (loadTransaction ''t1'' ''expense'' 10 ''Food'' ''a'' ''2024-01-05'' FinanceEngine_new))"
  have "arrival (BST_insert ?T3 (BST_insert ?T2 (BST_insert ?T1 Null))) ((([] @ [?T1]) @ [?T2]) @ [?T3])"
    by (intro arrival.intros)
  then have a: "arrival (transactionBST ?S) [?T1, ?T2, ?T3]"
    by (simp add: loadTransaction_fields FinanceEngine_new_fields)
  have m: "mset [?T1, ?T2, ?T3] = mset (getAllTransactions ?S)"
    by (simp add: getAllTransactions_def DLL_traverseForward_id loadTransaction_fields
        FinanceEngine_new_fields)
  from getTransactionsInRange_correct [OF a m, of "''2024-01-10''" "''2024-01-20''"]
  show ?thesis by simp
qed


section \<open>Budget sync\<close>

lemma setBudget_new:
  assumes wf: "UndoStack_wf (undoStack s)" and n: "getBudget cat s = None"
  shows "\<exists>s'. setBudget fmt cat lmt s = Some s' \<and>
           transactionList s' = transactionList s \<and>
           transactionBST s' = transactionBST s \<and>
           UndoStack_wf (undoStack s') \<and>
           (\<forall>c. currentExpense c s' = currentExpense c s) \<and>
           (\<forall>c. getBudget c s' =
              (if c = cat then Some \<lparr>budget_category = cat, limit = lmt, spent = currentExpense cat s\<rparr>
               else getBudget c s))"
proof -
  from UndoStack_push_preserves_wf [OF wf, of "\<lparr>atype = ADD_BUDGET, adata = cat @ ''|'' @ fmt lmt\<rparr>"]
  obtain us where us: "UndoStack_push \<lparr>atype = ADD_BUDGET, adata = cat @ ''|'' @ fmt lmt\<rparr> (undoStack s) = Some us"
    and wf': "UndoStack_wf us" by blast
  from n have n': "HashMap_search cat (budgetMap s) = None" by (simp add: getBudget_def)
  show ?thesis
    unfolding setBudget_def Let_def
    by (simp add: n' us wf' del: append.simps)
      (simp add: getBudget_def HashMap_search_insert)
qed

text \<open>
  Claim C1 (evaluation at the failing input). After \<^verbatim>\<open>setBudget("Food", 100)\<close> and an
  expense of 80 in that category the budget's \<^verbatim>\<open>spent\<close> is 80, the sum of the category's
  expenses in the ledger. \<^verbatim>\<open>clearAll\<close> then empties the ledger, so that sum is 0, but
  the budget still reports 80 spent: \<^verbatim>\<open>clearAll\<close> resets neither the expense totals nor
  the budgets.
\<close>

theorem clearAll_breaks_budget_sync:
  "\<exists>s1 t s2.
     setBudget (\<lambda>x. ''80'') ''Food'' 100 FinanceEngine_new = Some s1 \<and>
     addTransaction (\<lambda>x. ''80'') 1700000000 ''expense'' 80 ''Food'' [] ''2024-02-01'' s1 = Some (t, s2) \<and>
     getBudget ''Food'' s2 = Some \<lparr>budget_category = ''Food'', limit = 100, spent = 80\<rparr> \<and>
     expenseSum ''Food'' (getAllTransactions s2) = 80 \<and>
     getAllTransactions (clearAll s2) = [] \<and>
     expenseSum ''Food'' (getAllTransactions (clearAll s2)) = 0 \<and>
     getBudget ''Food'' (clearAll s2) = Some \<lparr>budget_category = ''Food'', limit = 100, spent = 80\<rparr>"
proof -
  have wf0: "UndoStack_wf (undoStack FinanceEngine_new)"
    by (simp add: FinanceEngine_new_fields UndoStack_wf_new)
  have n0: "getBudget ''Food'' FinanceEngine_new = None"
    by (simp add: getBudget_def FinanceEngine_new_fields HashMap_search_new)
  from setBudget_new [OF wf0 n0, of "\<lambda>x. ''80''" 100]
  obtain s1 where s1: "setBudget (\<lambda>x. ''80'') ''Food'' 100 FinanceEngine_new = Some s1"
    and l1: "transactionList s1 = []" and wf1: "UndoStack_wf (undoStack s1)"
    and c1: "\<And>c. currentExpense c s1 = 0"
    and g1: "getBudget ''Food'' s1 = Some \<lparr>budget_category = ''Food'', limit = 100, spent = 0\<rparr>"
    by (auto simp: FinanceEngine_new_fields currentExpense_new)
  from addTransaction_result [OF wf1, of "\<lambda>x. ''80''" 1700000000 "''expense''" 80 "''Food''" "[]" "''2024-02-01''"]
  obtain s2 where s2: "addTransaction (\<lambda>x. ''80'') 1700000000 ''expense'' 80 ''Food'' [] ''2024-02-01'' s1 =
        Some (\<lparr>txn_id = generateId 1700000000 s1, txn_type = ''expense'', amount = 80,
               category = ''Food'', description = [], date = ''2024-02-01''\<rparr>, s2)"
    and l2: "transactionList s2 = [\<lparr>txn_id = generateId 1700000000 s1, txn_type = ''expense'', amount = 80,
               category = ''Food'', description = [], date = ''2024-02-01''\<rparr>]"
    and g2: "getBudget ''Food'' s2 = Some \<lparr>budget_category = ''Food'', limit = 100, spent = 80\<rparr>"
    by (auto simp: l1 g1 c1 fadd_def)
  have "expenseSum ''Food'' (getAllTransactions s2) = 80"
    by (simp add: expenseSum_def getAllTransactions_def l2)
  moreover have "getAllTransactions (clearAll s2) = []"
    and "getBudget ''Food'' (clearAll s2) = getBudget ''Food'' s2"
    by (simp_all add: getAllTransactions_def getBudget_def clearAll_def DLL_clear_def)
  ultimately show ?thesis
    using s1 s2 g2 by (auto simp: expenseSum_def)
qed


text \<open>
  The sibling path: when the same expense is taken out of the ledger by \<^verbatim>\<open>undo\<close>
  (through \<^verbatim>\<open>deleteTransaction\<close>) instead of \<^verbatim>\<open>clearAll\<close>, the budget is brought
  back in step with the empty ledger.
\<close>

lemma undo_resyncs_budget:
  "\<exists>s1 t s2 s3.
     setBudget (\<lambda>x. ''80'') ''Food'' 100 FinanceEngine_new = Some s1 \<and>
     addTransaction (\<lambda>x. ''80'') 1700000000 ''expense'' 80 ''Food'' [] ''2024-02-01'' s1 = Some (t, s2) \<and>
     undo (\<lambda>x. ''80'') (\<lambda>buf. None) s2 = Some (True, s3) \<and>
     getAllTransactions s3 = [] \<and>
     getBudget ''Food'' s3 = Some \<lparr>budget_category = ''Food'', limit = 100, spent = 0\<rparr>"
proof -
  have wf0: "UndoStack_wf (undoStack FinanceEngine_new)"
    by (simp add: FinanceEngine_new_fields UndoStack_wf_new)
  have n0: "getBudget ''Food'' FinanceEngine_new = None"
    by (simp add: getBudget_def FinanceEngine_new_fields HashMap_search_new)
  from setBudget_new [OF wf0 n0, of "\<lambda>x. ''80''" 100]
  obtain s1 where s1: "setBudget (\<lambda>x. ''80'') ''Food'' 100 FinanceEngine_new = Some s1"
    and l1: "transactionList s1 = []" and b1: "transactionBST s1 = Null"
    and wf1: "UndoStack_wf (undoStack s1)"
    and c1: "\<And>c. currentExpense c s1 = 0"
    and g1: "getBudget ''Food'' s1 = Some \<lparr>budget_category = ''Food'', limit = 100, spent = 0\<rparr>"
    by (auto simp: FinanceEngine_new_fields currentExpense_new)
  have fresh: "BST_findById (generateId 1700000000 s1) (transactionBST s1) = None"
    by (simp add: b1 BST_findById_def)
  from addTransaction_undo_result [OF wf1 fresh, of "\<lambda>x. ''80''" "''expense''" 80 "''Food''" "[]"
      "''2024-02-01''" "\<lambda>buf. None"]
  obtain t s2 s3 where
    "addTransaction (\<lambda>x. ''80'') 1700000000 ''expense'' 80 ''Food'' [] ''2024-02-01'' s1 = Some (t, s2)"
    "undo (\<lambda>x. ''80'') (\<lambda>buf. None) s2 = Some (True, s3)"
    "getAllTransactions s3 = getAllTransactions s1"
    "getBudget ''Food'' s3 =
       map_option (\<lambda>b. b\<lparr>spent := max 0 (fsub (fadd (currentExpense ''Food'' s1) 80) 80)\<rparr>)
         (getBudget ''Food'' s1)"
    by auto
  with s1 show ?thesis
    by (auto simp: getAllTransactions_def l1 g1 c1 fadd_def fsub_def)
qed


section \<open>The engine invariant\<close>

text \<open>
  \<open>engine_inv\<close> holds of a new engine and is kept by \<^verbatim>\<open>addTransaction\<close>,
  \<^verbatim>\<open>loadTransaction\<close>, \<^verbatim>\<open>deleteTransaction\<close>, \<^verbatim>\<open>setBudget\<close>, \<^verbatim>\<open>loadBudget\<close>,
  the bill operations, the top-K queries, \<^verbatim>\<open>undo\<close> and \<^verbatim>\<open>clearAll\<close>, as long as
  amounts are not negative and ids are not reused. The hypotheses of the theorems above
  on the undo stack, the date index, the expense map and the budgets are consequences of
  it (\<open>engine_inv_hypotheses\<close>); that an id is not reused is the caller's obligation.
\<close>

lemma fadd_nonneg: "0 \<le> x \<Longrightarrow> 0 \<le> y \<Longrightarrow> 0 \<le> fadd x y"
  by (simp add: fadd_def rnd_nonneg)

lemma chain_remove_None_iff: "chain_remove k ch = None \<longleftrightarrow> chain_search k ch = None"
  by (induction ch) (auto split: if_splits)

lemma chain_remove_Some:
  "chain_remove k ch = Some ch' \<Longrightarrow> distinct (map fst ch) \<Longrightarrow>
   distinct (map fst ch') \<and> set ch' \<subseteq> set ch \<and>
   (\<forall>k'. chain_search k' ch' = (if k' = k then None else chain_search k' ch))"
proof (induction ch arbitrary: ch')
  case Nil
  then show ?case by simp
next
  case (Cons p ch)
  obtain a b where p: "p = (a, b)" by (cases p)
  show ?case
  proof (cases "a = k")
    case True
    with Cons.prems p have "ch' = ch" and "k \<notin> fst ` set ch" by auto
    with True p Cons.prems(2) show ?thesis
      by (auto simp: chain_search_None_keys)
  next
    case False
    with Cons.prems p obtain r where r: "chain_remove k ch = Some r" and ch': "ch' = (a, b) # r"
      by auto
    from Cons.IH [OF r] Cons.prems(2) p
    have "distinct (map fst r)" "set r \<subseteq> set ch"
      "\<forall>k'. chain_search k' r = (if k' = k then None else chain_search k' ch)" by auto
    with False p ch' Cons.prems(2) show ?thesis by (auto simp: image_iff)
  qed
qed

lemma HashMap_wf_update: "HashMap_wf m \<Longrightarrow> HashMap_wf (snd (HashMap_update k v m))"
proof (cases "chain_update k v (m (HashMap_hash k))")
  case None
  assume "HashMap_wf m"
  with None show ?thesis by (simp add: HashMap_update_def)
next
  case (Some ch')
  assume wf: "HashMap_wf m"
  from chain_update_keys [OF Some] have k: "map fst ch' = map fst (m (HashMap_hash k))" .
  then have "fst ` set ch' = fst ` set (m (HashMap_hash k))"
    by (metis set_map)
  with wf have h: "\<forall>x \<in> fst ` set ch'. HashMap_hash x = HashMap_hash k"
    by (simp add: HashMap_wf_def)
  have d: "distinct (map fst ch')"
    using wf k by (simp add: HashMap_wf_def)
  show ?thesis
    unfolding HashMap_wf_def HashMap_update_def Let_def Some
    using wf h d by (simp add: HashMap_wf_def)
qed

lemma HashMap_remove_wf:
  assumes wf: "HashMap_wf m"
  shows "HashMap_wf (snd (HashMap_remove k m)) \<and>
         (\<forall>k'. HashMap_search k' (snd (HashMap_remove k m)) =
                (if k' = k then None else HashMap_search k' m))"
proof (cases "chain_remove k (m (HashMap_hash k))")
  case None
  then have "HashMap_search k m = None"
    by (simp add: HashMap_search_def chain_remove_None_iff)
  with None wf show ?thesis by (auto simp: HashMap_remove_def)
next
  case (Some ch')
  from wf have d: "distinct (map fst (m (HashMap_hash k)))" by (simp add: HashMap_wf_def)
  from chain_remove_Some [OF Some d]
  have d': "distinct (map fst ch')" and sub: "set ch' \<subseteq> set (m (HashMap_hash k))"
    and se: "\<And>k'. chain_search k' ch' = (if k' = k then None else chain_search k' (m (HashMap_hash k)))"
    by auto
  have h: "\<forall>x \<in> fst ` set ch'. HashMap_hash x = HashMap_hash k"
    using wf sub by (auto simp: HashMap_wf_def)
  have 1: "HashMap_wf (snd (HashMap_remove k m))"
    unfolding HashMap_wf_def HashMap_remove_def Let_def Some
    using wf h d' by (simp add: HashMap_wf_def)
  have 2: "HashMap_search k' (snd (HashMap_remove k m)) =
                (if k' = k then None else HashMap_search k' m)" for k'
    by (auto simp: HashMap_search_def HashMap_remove_def Some se)
  from 1 2 show ?thesis by blast
qed


lemma HashMap_wf_budget_updateExpenseTracking:
  "HashMap_wf (budgetMap s) \<Longrightarrow> HashMap_wf (budgetMap (updateExpenseTracking t isAdd s))"
  by (simp add: updateExpenseTracking_def Let_def HashMap_wf_update split: option.splits)

lemma HashMap_wf_budget_addTransaction:
  "addTransaction fmt now ty amt cat desc dt s = Some (t, s') \<Longrightarrow> HashMap_wf (budgetMap s) \<Longrightarrow>
   HashMap_wf (budgetMap s')"
proof -
  assume a: "addTransaction fmt now ty amt cat desc dt s = Some (t, s')"
    and wf: "HashMap_wf (budgetMap s)"
  let ?t = "\<lparr>txn_id = generateId now s, txn_type = ty, amount = amt, category = cat,
              description = desc, date = dt\<rparr>"
  let ?s4 = "s\<lparr>txnCounter := txnCounter s + 1,
               transactionList := DLL_addFront ?t (transactionList s),
               transactionBST := BST_insert ?t (transactionBST s),
               recentStack := TransactionStack_push ?t (recentStack s)\<rparr>"
  from a have "budgetMap s' = budgetMap (updateExpenseTracking ?t True ?s4)"
    by (auto simp: addTransaction_def Let_def split: option.splits if_splits)
  moreover have "HashMap_wf (budgetMap ?s4)" using wf by simp
  ultimately show ?thesis
    by (simp only: HashMap_wf_budget_updateExpenseTracking)
qed

lemma HashMap_wf_budget_deleteTransaction:
  "deleteTransaction fmt i s = Some (r, s') \<Longrightarrow> HashMap_wf (budgetMap s) \<Longrightarrow>
   HashMap_wf (budgetMap s')"
proof -
  assume a: "deleteTransaction fmt i s = Some (r, s')" and wf: "HashMap_wf (budgetMap s)"
  show ?thesis
  proof (cases "BST_findById i (transactionBST s)")
    case None
    with a wf show ?thesis by (simp add: deleteTransaction_def)
  next
    case (Some t)
    with a obtain us where "s' = updateExpenseTracking t False
        (s\<lparr>undoStack := us,
           transactionList := snd (DLL_deleteById i (transactionList s)),
           transactionBST := snd (BST_deleteById i (transactionBST s))\<rparr>)"
      by (auto simp: deleteTransaction_def Let_def split: option.splits)
    moreover have "HashMap_wf (budgetMap (s\<lparr>undoStack := us,
           transactionList := snd (DLL_deleteById i (transactionList s)),
           transactionBST := snd (BST_deleteById i (transactionBST s))\<rparr>))"
      using wf by simp
    ultimately show ?thesis
      by (simp only: HashMap_wf_budget_updateExpenseTracking)
  qed
qed

lemma UndoStack_wf_pushed:
  assumes "UndoStack_wf st"
  shows "UndoStack_wf (st\<lparr>us_top := a # (if us_count st \<ge> us_maxSize st then butlast (us_top st) else us_top st),
              us_count := (if us_count st \<ge> us_maxSize st then us_count st else us_count st + 1)\<rparr>)"
  using UndoStack_push_preserves_wf [OF assms, of a] UndoStack_push_wf [OF assms, of a]
  by auto

lemma UndoStack_wf_pop:
  "UndoStack_wf st \<Longrightarrow> UndoStack_pop st = Some (a, st') \<Longrightarrow> UndoStack_wf st'"
  by (auto simp: UndoStack_wf_def UndoStack_pop_def split: list.splits)

lemma engine_inv_new: "engine_inv FinanceEngine_new []"
  by (simp add: engine_inv_def ledger_indexed_new FinanceEngine_new_fields UndoStack_wf_new
      HashMap_wf_new budget_sync_def currentExpense_new getBudget_def HashMap_search_new)

lemma engine_inv_addTransaction:
  assumes inv: "engine_inv s ts" and amt: "0 \<le> amt"
    and fresh: "generateId now s \<notin> txn_id ` set ts"
  shows "\<exists>t s'. addTransaction fmt now ty amt cat desc dt s = Some (t, s') \<and>
           engine_inv s' (ts @ [t])"
proof -
  let ?t = "\<lparr>txn_id = generateId now s, txn_type = ty, amount = amt, category = cat,
              description = desc, date = dt\<rparr>"
  from inv have wf: "UndoStack_wf (undoStack s)" and li: "ledger_indexed s ts"
    and we: "HashMap_wf (expenseMap s)" and wb: "HashMap_wf (budgetMap s)"
    and bs: "budget_sync s" by (simp_all add: engine_inv_def)
  from addTransaction_result [OF wf, of fmt now ty amt cat desc dt]
  obtain s1 where add: "addTransaction fmt now ty amt cat desc dt s = Some (?t, s1)"
    and l1: "transactionList s1 = ?t # transactionList s"
    and u1: "undoStack s1 = (undoStack s)
            \<lparr>us_top := \<lparr>atype = ADD_TRANSACTION, adata = serializeTransaction fmt ?t\<rparr> #
                (if us_count (undoStack s) \<ge> us_maxSize (undoStack s)
                 then butlast (us_top (undoStack s)) else us_top (undoStack s)),
             us_count := (if us_count (undoStack s) \<ge> us_maxSize (undoStack s)
                 then us_count (undoStack s) else us_count (undoStack s) + 1)\<rparr>"
    and g1: "\<And>c. getBudget c s1 =
             (if ty = ''expense'' \<and> c = cat
              then map_option (\<lambda>b. b\<lparr>spent := fadd (currentExpense cat s) amt\<rparr>) (getBudget c s)
              else getBudget c s)"
    and c1: "\<And>c. currentExpense c s1 =
             (if ty = ''expense'' \<and> c = cat then fadd (currentExpense cat s) amt
              else currentExpense c s)"
    by blast
  have 1: "UndoStack_wf (undoStack s1)"
    unfolding u1 by (rule UndoStack_wf_pushed [OF wf])
  have 2: "ledger_indexed s1 (ts @ [?t])"
    by (rule ledger_indexed_addTransaction [OF li fresh add])
  have 3: "HashMap_wf (expenseMap s1)"
    by (rule HashMap_wf_addTransaction [OF add we])
  have 4: "HashMap_wf (budgetMap s1)"
    by (rule HashMap_wf_budget_addTransaction [OF add wb])
  have 5: "budget_sync s1"
    using bs amt unfolding budget_sync_def l1
    by (auto simp: c1 g1 fadd_nonneg split: if_splits)
  from add 1 2 3 4 5 show ?thesis by (auto simp: engine_inv_def)
qed


lemma findInBucket_Some: "findInBucket i ts = Some t \<Longrightarrow> t \<in> set ts \<and> txn_id t = i"
  by (induction ts) (auto split: if_splits)

lemma BST_findHelper_Some: "BST_findHelper b i = Some t \<Longrightarrow> t \<in> set (inorder b) \<and> txn_id t = i"
proof (induction b)
  case Null
  then show ?case by simp
next
  case (BSTNode nd ts l r)
  show ?case
  proof (cases "findInBucket i ts")
    case (Some x)
    with BSTNode.prems findInBucket_Some [OF Some] show ?thesis by simp
  next
    case None
    show ?thesis
    proof (cases "BST_findHelper l i")
      case (Some x)
      with None BSTNode show ?thesis by simp
    next
      case n: None
      with None BSTNode show ?thesis by simp
    qed
  qed
qed

lemma HashMap_wf_budget_loadTransaction:
  "HashMap_wf (budgetMap s) \<Longrightarrow> HashMap_wf (budgetMap (loadTransaction i ty amt cat desc dt s))"
proof -
  assume wf: "HashMap_wf (budgetMap s)"
  let ?t = "\<lparr>txn_id = i, txn_type = ty, amount = amt, category = cat,
              description = desc, date = dt\<rparr>"
  let ?s3 = "s\<lparr>transactionList := DLL_addBack ?t (transactionList s),
               transactionBST := BST_insert ?t (transactionBST s),
               recentStack := TransactionStack_push ?t (recentStack s)\<rparr>"
  have "budgetMap (loadTransaction i ty amt cat desc dt s) =
      budgetMap (updateExpenseTracking ?t True ?s3)"
    by (simp add: loadTransaction_def Let_def)
  moreover have "HashMap_wf (budgetMap ?s3)" using wf by simp
  ultimately show ?thesis
    by (simp only: HashMap_wf_budget_updateExpenseTracking)
qed

lemma engine_inv_loadTransaction:
  assumes inv: "engine_inv s ts" and amt: "0 \<le> amt" and fresh: "i \<notin> txn_id ` set ts"
  shows "engine_inv (loadTransaction i ty amt cat desc dt s)
           (ts @ [\<lparr>txn_id = i, txn_type = ty, amount = amt, category = cat,
                    description = desc, date = dt\<rparr>])"
proof -
  from inv have wf: "UndoStack_wf (undoStack s)" and li: "ledger_indexed s ts"
    and we: "HashMap_wf (expenseMap s)" and wb: "HashMap_wf (budgetMap s)"
    and bs: "budget_sync s" by (simp_all add: engine_inv_def)
  have "budget_sync (loadTransaction i ty amt cat desc dt s)"
    using bs amt unfolding budget_sync_def
    by (auto simp: loadTransaction_fields loadTransaction_getBudget fadd_nonneg split: if_splits)
  with wf we wb ledger_indexed_loadTransaction [OF li fresh] show ?thesis
    by (simp add: engine_inv_def loadTransaction_fields HashMap_wf_loadTransaction
        HashMap_wf_budget_loadTransaction)
qed

lemma engine_inv_deleteTransaction:
  assumes inv: "engine_inv s ts"
  shows "\<exists>r s'. deleteTransaction fmt i s = Some (r, s') \<and>
           engine_inv s' (filter (\<lambda>t. txn_id t \<noteq> i) ts)"
proof -
  from inv have wf: "UndoStack_wf (undoStack s)" and li: "ledger_indexed s ts"
    and we: "HashMap_wf (expenseMap s)" and wb: "HashMap_wf (budgetMap s)"
    and bs: "budget_sync s" by (simp_all add: engine_inv_def)
  from li have ar: "arrival (transactionBST s) ts"
    and ms: "mset ts = mset (transactionList s)" and di: "distinct (map txn_id ts)"
    by (simp_all add: ledger_indexed_def)
  from arrival_inv [OF ar] have io: "inorder (transactionBST s) = sort_key date ts" by simp
  have dl: "distinct (map txn_id (transactionList s))"
    using di ms by (metis mset_eq_imp_distinct_iff mset_map)
  show ?thesis
  proof (cases "BST_findById i (transactionBST s)")
    case None
    then have d: "deleteTransaction fmt i s = Some (False, s)"
      by (simp add: deleteTransaction_def)
    from ledger_indexed_deleteTransaction [OF li d] inv d show ?thesis
      by (auto simp: engine_inv_def)
  next
    case (Some t)
    from deleteTransaction_result [OF wf Some, of fmt]
    obtain s' where d: "deleteTransaction fmt i s = Some (True, s')"
      and l: "transactionList s' = snd (DLL_deleteById i (transactionList s))"
      and u: "undoStack s' = (undoStack s)
            \<lparr>us_top := \<lparr>atype = DELETE_TRANSACTION, adata = serializeTransaction fmt t\<rparr> #
                (if us_count (undoStack s) \<ge> us_maxSize (undoStack s)
                 then butlast (us_top (undoStack s)) else us_top (undoStack s)),
             us_count := (if us_count (undoStack s) \<ge> us_maxSize (undoStack s)
                 then us_count (undoStack s) else us_count (undoStack s) + 1)\<rparr>"
      and g: "\<And>c. getBudget c s' =
             (if txn_type t = ''expense'' \<and> c = category t
              then map_option (\<lambda>b. b\<lparr>spent := max 0 (fsub (currentExpense (category t) s) (amount t))\<rparr>)
                     (getBudget c s)
              else getBudget c s)"
      and c: "\<And>c. currentExpense c s' =
             (if txn_type t = ''expense'' \<and> c = category t
              then max 0 (fsub (currentExpense (category t) s) (amount t))
              else currentExpense c s)"
      by blast
    from Some have "t \<in> set (inorder (transactionBST s))" and ti: "txn_id t = i"
      using BST_findHelper_Some [of "transactionBST s" i t] by (simp_all add: BST_findById_def)
    then have "t \<in> set ts" by (simp add: io)
    then have tl: "t \<in> set (transactionList s)"
      using ms by (metis set_mset_mset)
    have l': "transactionList s' = filter (\<lambda>x. txn_id x \<noteq> txn_id t) (transactionList s)"
      by (simp add: l DLL_deleteById_filter [OF dl] ti)
    from bs have cur: "\<And>c. 0 \<le> currentExpense c s"
      and sp: "\<And>c b. getBudget c s = Some b \<Longrightarrow> spent b = currentExpense c s"
      and nn: "\<forall>t \<in> set (transactionList s). 0 \<le> amount t"
      by (auto simp: budget_sync_def)
    have nn': "\<forall>x \<in> set (transactionList s'). 0 \<le> amount x"
      using nn by (simp add: l')
    have cur': "0 \<le> currentExpense c s'" for c
      using cur [of c] by (simp add: c)
    have sp': "spent b = currentExpense c s'" if "getBudget c s' = Some b" for c b
      using that sp [of c] by (auto simp: g c split: if_splits)
    have 5: "budget_sync s'"
      unfolding budget_sync_def using cur' sp' nn' by blast
    have 1: "UndoStack_wf (undoStack s')"
      unfolding u by (rule UndoStack_wf_pushed [OF wf])
    from d 1 5 ledger_indexed_deleteTransaction [OF li d]
      HashMap_wf_deleteTransaction [OF d we] HashMap_wf_budget_deleteTransaction [OF d wb]
    show ?thesis by (auto simp: engine_inv_def)
  qed
qed


lemma budget_sync_frame:
  assumes "budget_sync s" and "transactionList s' = transactionList s"
    and "\<And>c. currentExpense c s' = currentExpense c s"
    and "\<And>c b. getBudget c s' = Some b \<Longrightarrow>
           spent b = currentExpense c s \<or> (\<exists>b0. getBudget c s = Some b0 \<and> spent b = spent b0)"
  shows "budget_sync s'"
  using assms unfolding budget_sync_def by (metis (no_types, lifting))

lemma engine_inv_setBudget:
  assumes inv: "engine_inv s ts"
  shows "\<exists>s'. setBudget fmt cat lmt s = Some s' \<and> engine_inv s' ts"
proof -
  from inv have wf: "UndoStack_wf (undoStack s)" and li: "ledger_indexed s ts"
    and we: "HashMap_wf (expenseMap s)" and wb: "HashMap_wf (budgetMap s)"
    and bs: "budget_sync s" by (simp_all add: engine_inv_def)
  show ?thesis
  proof (cases "HashMap_search cat (budgetMap s)")
    case None
    let ?a = "\<lparr>atype = ADD_BUDGET, adata = cat @ ''|'' @ fmt lmt\<rparr>"
    from UndoStack_push_preserves_wf [OF wf, of ?a]
    obtain us where us: "UndoStack_push ?a (undoStack s) = Some us" and wf': "UndoStack_wf us"
      by blast
    let ?s' = "s\<lparr>undoStack := us,
      budgetMap := HashMap_insert cat \<lparr>budget_category = cat, limit = lmt, spent = currentExpense cat s\<rparr>
         (budgetMap s),
      categoryTrie := Trie_insert cat (categoryTrie s)\<rparr>"
    have e: "setBudget fmt cat lmt s = Some ?s'"
      unfolding setBudget_def Let_def by (simp add: None us del: append.simps)
    have "budget_sync ?s'"
      by (rule budget_sync_frame [OF bs]) (auto simp: getBudget_def HashMap_search_insert split: if_splits)
    with wf' li we wb have "engine_inv ?s' ts"
      by (simp add: engine_inv_def ledger_indexed_def HashMap_wf_insert)
    with e show ?thesis by blast
  next
    case (Some existing)
    let ?a = "\<lparr>atype = UPDATE_BUDGET, adata = cat @ ''|'' @ fmt (limit existing)\<rparr>"
    from UndoStack_push_preserves_wf [OF wf, of ?a]
    obtain us where us: "UndoStack_push ?a (undoStack s) = Some us" and wf': "UndoStack_wf us"
      by blast
    let ?s' = "s\<lparr>undoStack := us,
      budgetMap := snd (HashMap_update cat (existing\<lparr>limit := lmt\<rparr>) (budgetMap s)),
      categoryTrie := Trie_insert cat (categoryTrie s)\<rparr>"
    have e: "setBudget fmt cat lmt s = Some ?s'"
      unfolding setBudget_def Let_def by (simp add: Some us del: append.simps)
    have "budget_sync ?s'"
      by (rule budget_sync_frame [OF bs])
        (auto simp: getBudget_def HashMap_search_update Some split: if_splits)
    with wf' li we wb have "engine_inv ?s' ts"
      by (simp add: engine_inv_def ledger_indexed_def HashMap_wf_update)
    with e show ?thesis by blast
  qed
qed

lemma engine_inv_loadBudget:
  assumes inv: "engine_inv s ts"
  shows "engine_inv (loadBudget cat lmt s) ts"
proof -
  from inv have wf: "UndoStack_wf (undoStack s)" and li: "ledger_indexed s ts"
    and we: "HashMap_wf (expenseMap s)" and wb: "HashMap_wf (budgetMap s)"
    and bs: "budget_sync s" by (simp_all add: engine_inv_def)
  have "budget_sync (loadBudget cat lmt s)"
    by (rule budget_sync_frame [OF bs])
      (auto simp: loadBudget_def Let_def getBudget_def HashMap_search_insert split: if_splits)
  with wf li we wb show ?thesis
    by (simp add: engine_inv_def ledger_indexed_def loadBudget_def Let_def HashMap_wf_insert)
qed

lemma engine_inv_frame:
  assumes "engine_inv s ts" and "UndoStack_wf (undoStack s')"
    and "transactionList s' = transactionList s" and "transactionBST s' = transactionBST s"
    and "expenseMap s' = expenseMap s" and "budgetMap s' = budgetMap s"
  shows "engine_inv s' ts"
  using assms
  by (simp add: engine_inv_def ledger_indexed_def budget_sync_def currentExpense_def getBudget_def)

lemma engine_inv_addBill:
  assumes inv: "engine_inv s ts"
  shows "\<exists>b s'. addBill fmt now nm amt due cat s = Some (b, s') \<and> engine_inv s' ts"
proof -
  let ?b = "\<lparr>bill_id = generateBillId now s, bill_name = nm, bill_amount = amt,
                dueDate = due, bill_category = cat, isPaid = False\<rparr>"
  from inv have wf: "UndoStack_wf (undoStack s)" by (simp add: engine_inv_def)
  from UndoStack_push_preserves_wf [OF wf, of "\<lparr>atype = ADD_BILL, adata = serializeBill fmt ?b\<rparr>"]
  obtain us where us: "UndoStack_push \<lparr>atype = ADD_BILL, adata = serializeBill fmt ?b\<rparr> (undoStack s) = Some us"
    and wf': "UndoStack_wf us" by blast
  let ?s' = "s\<lparr>billCounter := billCounter s + 1,
               billQueue := BillQueue_enqueue ?b (billQueue s), undoStack := us\<rparr>"
  have "addBill fmt now nm amt due cat s = Some (?b, ?s')"
    unfolding addBill_def Let_def by (simp add: us)
  moreover have "engine_inv ?s' ts"
    by (rule engine_inv_frame [OF inv]) (simp_all add: wf')
  ultimately show ?thesis by blast
qed

lemma engine_inv_payBill:
  assumes inv: "engine_inv s ts"
  shows "\<exists>r s'. payBill i s = Some (r, s') \<and> engine_inv s' ts"
proof (cases "BillQueue_findById i (billQueue s)")
  case None
  with inv show ?thesis by (auto simp: payBill_def)
next
  case (Some b)
  from inv have wf: "UndoStack_wf (undoStack s)" by (simp add: engine_inv_def)
  from UndoStack_push_preserves_wf [OF wf, of "\<lparr>atype = PAY_BILL, adata = i\<rparr>"]
  obtain us where us: "UndoStack_push \<lparr>atype = PAY_BILL, adata = i\<rparr> (undoStack s) = Some us"
    and wf': "UndoStack_wf us" by blast
  let ?s' = "s\<lparr>undoStack := us, billQueue := snd (BillQueue_markAsPaid i (billQueue s))\<rparr>"
  have "payBill i s = Some (fst (BillQueue_markAsPaid i (billQueue s)), ?s')"
    by (simp add: payBill_def Some us case_prod_beta)
  moreover have "engine_inv ?s' ts"
    by (rule engine_inv_frame [OF inv]) (simp_all add: wf')
  ultimately show ?thesis by blast
qed

lemma engine_inv_removeBill:
  assumes inv: "engine_inv s ts"
  shows "\<exists>r s'. removeBill fmt i s = Some (r, s') \<and> engine_inv s' ts"
proof (cases "BillQueue_findById i (billQueue s)")
  case None
  with inv show ?thesis by (auto simp: removeBill_def)
next
  case (Some b)
  from inv have wf: "UndoStack_wf (undoStack s)" by (simp add: engine_inv_def)
  from UndoStack_push_preserves_wf [OF wf, of "\<lparr>atype = DELETE_BILL, adata = serializeBill fmt b\<rparr>"]
  obtain us where us: "UndoStack_push \<lparr>atype = DELETE_BILL, adata = serializeBill fmt b\<rparr> (undoStack s) = Some us"
    and wf': "UndoStack_wf us" by blast
  let ?s' = "s\<lparr>undoStack := us, billQueue := snd (BillQueue_removeById i (billQueue s))\<rparr>"
  have "removeBill fmt i s = Some (fst (BillQueue_removeById i (billQueue s)), ?s')"
    by (simp add: removeBill_def Some us case_prod_beta)
  moreover have "engine_inv ?s' ts"
    by (rule engine_inv_frame [OF inv]) (simp_all add: wf')
  ultimately show ?thesis by blast
qed

lemma engine_inv_loadBill:
  assumes "engine_inv s ts"
  shows "engine_inv (loadBill i nm amt due cat paid s) ts"
  using assms by (rule engine_inv_frame) (use assms in \<open>simp_all add: loadBill_def Let_def engine_inv_def\<close>)

lemma engine_inv_getTopExpenses:
  assumes "engine_inv s ts"
  shows "engine_inv (snd (getTopExpenses k s)) ts"
  using assms
  by (rule engine_inv_frame) (use assms in \<open>simp_all add: getTopExpenses_def Let_def engine_inv_def\<close>)

lemma engine_inv_getTopCategories:
  assumes "engine_inv s ts"
  shows "engine_inv (snd (getTopCategories k s)) ts"
  using assms
  by (rule engine_inv_frame) (use assms in \<open>simp_all add: getTopCategories_def Let_def engine_inv_def\<close>)


lemma engine_inv_reinsert:
  assumes inv: "engine_inv s ts" and amt: "0 \<le> amount t" and fresh: "txn_id t \<notin> txn_id ` set ts"
  shows "engine_inv
           (updateExpenseTracking t True
              (s\<lparr>transactionList := DLL_addFront t (transactionList s),
                 transactionBST := BST_insert t (transactionBST s)\<rparr>))
           (ts @ [t])"
proof -
  let ?s1 = "s\<lparr>transactionList := DLL_addFront t (transactionList s),
                 transactionBST := BST_insert t (transactionBST s)\<rparr>"
  let ?s' = "updateExpenseTracking t True ?s1"
  from inv have wf: "UndoStack_wf (undoStack s)" and li: "ledger_indexed s ts"
    and we: "HashMap_wf (expenseMap s)" and wb: "HashMap_wf (budgetMap s)"
    and bs: "budget_sync s" by (simp_all add: engine_inv_def)
  have 1: "UndoStack_wf (undoStack ?s')"
    using wf by (simp add: updateExpenseTracking_frame)
  have 2: "ledger_indexed ?s' (ts @ [t])"
    using li fresh
    by (simp add: ledger_indexed_def updateExpenseTracking_frame DLL_addFront_def arrival.inserted)
  have 3: "HashMap_wf (expenseMap ?s')"
    using we by (simp add: HashMap_wf_updateExpenseTracking)
  have 4: "HashMap_wf (budgetMap ?s')"
    using wb by (simp add: HashMap_wf_budget_updateExpenseTracking)
  have 5: "budget_sync ?s'"
    using bs amt unfolding budget_sync_def
    by (auto simp: updateExpenseTracking_frame DLL_addFront_def currentExpense_updateExpenseTracking
        getBudget_updateExpenseTracking newTotal_def fadd_nonneg split: if_splits)
  from 1 2 3 4 5 show ?thesis by (simp add: engine_inv_def)
qed

lemma engine_inv_undoStack:
  assumes "engine_inv s ts" and "UndoStack_wf us"
  shows "engine_inv (s\<lparr>undoStack := us\<rparr>) ts"
  using assms(1) by (rule engine_inv_frame) (simp_all add: assms(2))

lemma engine_inv_undo:
  assumes inv: "engine_inv s ts"
    and un: "undo fmt scan s = Some (r, s')"
    and del: "\<And>a rest t. us_top (undoStack s) = a # rest \<Longrightarrow> atype a = DELETE_TRANSACTION \<Longrightarrow>
               readTransaction scan (adata a, False) = Some t \<Longrightarrow>
               0 \<le> amount t \<and> txn_id t \<notin> txn_id ` set ts"
  shows "\<exists>ts'. engine_inv s' ts'"
proof (cases "us_top (undoStack s)")
  case Nil
  with un have "s' = s" by (simp add: undo_def UndoStack_pop_def)
  with inv show ?thesis by blast
next
  case (Cons a rest)
  define us where "us = (undoStack s)\<lparr>us_top := rest, us_count := us_count (undoStack s) - 1\<rparr>"
  have pop: "UndoStack_pop (undoStack s) = Some (a, us)"
    by (simp add: UndoStack_pop_def Cons us_def)
  from inv have wf: "UndoStack_wf (undoStack s)" by (simp add: engine_inv_def)
  have wfu: "UndoStack_wf us" by (rule UndoStack_wf_pop [OF wf pop])
  let ?s0 = "s\<lparr>undoStack := us\<rparr>"
  have inv0: "engine_inv ?s0 ts" by (rule engine_inv_undoStack [OF inv wfu])
  show ?thesis
  proof (cases "atype a")
    case ADD_TRANSACTION
    let ?tok = "fst (getline CHR ''|'' (adata a, False))"
    from engine_inv_deleteTransaction [OF inv0, of fmt ?tok]
    obtain r1 s1 where d: "deleteTransaction fmt ?tok ?s0 = Some (r1, s1)"
      and inv1: "engine_inv s1 (filter (\<lambda>t. txn_id t \<noteq> ?tok) ts)" by blast
    show ?thesis
    proof (cases "UndoStack_pop (undoStack s1)")
      case None
      with un pop ADD_TRANSACTION d have "s' = s1"
        by (simp add: undo_def case_prod_beta)
      with inv1 show ?thesis by blast
    next
      case (Some p)
      obtain b us1 where p: "p = (b, us1)" by (cases p)
      from inv1 have "UndoStack_wf (undoStack s1)" by (simp add: engine_inv_def)
      from UndoStack_wf_pop [OF this Some [unfolded p]] have "UndoStack_wf us1" .
      from engine_inv_undoStack [OF inv1 this]
      have "engine_inv (s1\<lparr>undoStack := us1\<rparr>) (filter (\<lambda>t. txn_id t \<noteq> ?tok) ts)" .
      moreover from un pop ADD_TRANSACTION d Some p have "s' = s1\<lparr>undoStack := us1\<rparr>"
        by (simp add: undo_def case_prod_beta)
      ultimately show ?thesis by blast
    qed
  next
    case DELETE_TRANSACTION
    show ?thesis
    proof (cases "readTransaction scan (adata a, False)")
      case None
      with un pop DELETE_TRANSACTION show ?thesis by (simp add: undo_def)
    next
      case (Some t)
      from del [OF Cons DELETE_TRANSACTION Some]
      have amt: "0 \<le> amount t" and fresh: "txn_id t \<notin> txn_id ` set ts" by simp_all
      from un pop DELETE_TRANSACTION Some
      have "s' = updateExpenseTracking t True
              (?s0\<lparr>transactionList := DLL_addFront t (transactionList ?s0),
                 transactionBST := BST_insert t (transactionBST ?s0)\<rparr>)"
        by (simp add: undo_def Let_def)
      with engine_inv_reinsert [OF inv0 amt fresh] show ?thesis by blast
    qed
  next
    case ADD_BUDGET
    let ?tok = "fst (getline CHR ''|'' (adata a, False))"
    let ?s' = "?s0\<lparr>budgetMap := snd (HashMap_remove ?tok (budgetMap ?s0))\<rparr>"
    from un pop ADD_BUDGET have s': "s' = ?s'"
      by (simp add: undo_def case_prod_beta)
    from inv0 have li: "ledger_indexed ?s0 ts"
      and we: "HashMap_wf (expenseMap ?s0)" and wb: "HashMap_wf (budgetMap ?s0)"
      and bs: "budget_sync ?s0" by (simp_all add: engine_inv_def)
    from wb have wb': "HashMap_wf (budgetMap s)" by simp
    note R = HashMap_remove_wf [OF wb', of ?tok]
    have "budget_sync ?s'"
      by (rule budget_sync_frame [OF bs]) (auto simp: getBudget_def R split: if_splits)
    with wfu li we R have "engine_inv ?s' ts"
      by (simp add: engine_inv_def ledger_indexed_def)
    with s' show ?thesis by blast
  next
    case UPDATE_BUDGET
    let ?cat = "fst (getline CHR ''|'' (adata a, False))"
    let ?ol = "fst (read_double scan (snd (getline CHR ''|'' (adata a, False))))"
    show ?thesis
    proof (cases "HashMap_search ?cat (budgetMap ?s0)")
      case None
      with un pop UPDATE_BUDGET have "s' = ?s0"
        by (simp add: undo_def case_prod_beta)
      with inv0 show ?thesis by blast
    next
      case (Some b)
      show ?thesis
      proof (cases ?ol)
        case None
        with un pop UPDATE_BUDGET Some show ?thesis
          by (simp add: undo_def case_prod_beta)
      next
        case l: (Some l)
        let ?s' = "?s0\<lparr>budgetMap := snd (HashMap_update ?cat (b\<lparr>limit := l\<rparr>) (budgetMap ?s0))\<rparr>"
        from un pop UPDATE_BUDGET Some l have s': "s' = ?s'"
          by (simp add: undo_def case_prod_beta)
        from inv0 have li: "ledger_indexed ?s0 ts"
          and we: "HashMap_wf (expenseMap ?s0)" and wb: "HashMap_wf (budgetMap ?s0)"
          and bs: "budget_sync ?s0" by (simp_all add: engine_inv_def)
        have "budget_sync ?s'"
          by (rule budget_sync_frame [OF bs])
            (use Some in \<open>auto simp: getBudget_def HashMap_search_update split: if_splits\<close>)
        with wfu li we wb have "engine_inv ?s' ts"
          by (simp add: engine_inv_def ledger_indexed_def HashMap_wf_update)
        with s' show ?thesis by blast
      qed
    qed
  next
    case ADD_BILL
    with un pop have "s' = ?s0" by (simp add: undo_def)
    with inv0 show ?thesis by blast
  next
    case DELETE_BILL
    with un pop have "s' = ?s0" by (simp add: undo_def)
    with inv0 show ?thesis by blast
  next
    case PAY_BILL
    with un pop have "s' = ?s0" by (simp add: undo_def)
    with inv0 show ?thesis by blast
  qed
qed

lemma engine_inv_hypotheses:
  assumes "engine_inv s ts"
  shows "UndoStack_wf (undoStack s)"
    and "arrival (transactionBST s) ts"
    and "mset ts = mset (getAllTransactions s)"
    and "distinct (map txn_id (getAllTransactions s))"
    and "HashMap_wf (expenseMap s)"
    and "0 \<le> currentExpense c s"
    and "\<forall>b. getBudget c s = Some b \<longrightarrow> spent b = currentExpense c s"
    and "generateId now s \<notin> txn_id ` set ts \<Longrightarrow>
           BST_findById (generateId now s) (transactionBST s) = None"
proof -
  from assms have wf: "UndoStack_wf (undoStack s)" and li: "ledger_indexed s ts"
    and we: "HashMap_wf (expenseMap s)" and bs: "budget_sync s"
    by (simp_all add: engine_inv_def)
  from li have ar: "arrival (transactionBST s) ts"
    and ms: "mset ts = mset (transactionList s)" and di: "distinct (map txn_id ts)"
    by (simp_all add: ledger_indexed_def)
  show "UndoStack_wf (undoStack s)" by (rule wf)
  show "arrival (transactionBST s) ts" by (rule ar)
  show "mset ts = mset (getAllTransactions s)"
    by (simp add: ms getAllTransactions_def DLL_traverseForward_id)
  show "distinct (map txn_id (getAllTransactions s))"
    using di ms
    by (simp add: getAllTransactions_def DLL_traverseForward_id)
      (metis mset_eq_imp_distinct_iff mset_map)
  show "HashMap_wf (expenseMap s)" by (rule we)
  show "0 \<le> currentExpense c s"
    using bs by (simp add: budget_sync_def)
  show "\<forall>b. getBudget c s = Some b \<longrightarrow> spent b = currentExpense c s"
    using bs by (simp add: budget_sync_def)
  assume "generateId now s \<notin> txn_id ` set ts"
  then show "BST_findById (generateId now s) (transactionBST s) = None"
    using arrival_inv [OF ar] by (simp add: BST_findById_def BST_findHelper_None)
qed

lemma engine_inv_clearAll:
  assumes "engine_inv s ts"
  shows "engine_inv (clearAll s) []"
proof -
  from assms have "budget_sync s" by (simp add: engine_inv_def)
  then have "budget_sync (clearAll s)"
    by (simp add: budget_sync_def clearAll_def currentExpense_def getBudget_def DLL_clear_def)
  moreover have "UndoStack_wf (undoStack (clearAll s))"
    using assms by (simp add: engine_inv_def clearAll_def UndoStack_clear_def UndoStack_wf_def)
  moreover have "HashMap_wf (expenseMap (clearAll s))" "HashMap_wf (budgetMap (clearAll s))"
    using assms by (simp_all add: engine_inv_def clearAll_def)
  ultimately show ?thesis
    by (simp add: engine_inv_def ledger_indexed_clearAll)
qed

end
